theory Spec2Isabelle
  imports Main "HOL-Library.Word" "HOL-Library.Multiset"
begin

section \<open>The vector iterators of \<open>vector.hpp\<close>\<close>

text \<open>
  An iterator of \<open>sjtu::vector\<close> is a pair of the pointer to the vector's buffer and
  an \<open>int\<close> index into it. The pointer is modelled by the address of the buffer, the index
  by a 32-bit word read as two's complement (the arithmetic of \<open>int\<close> as compilers
  implement it; the source never checks for overflow). A member \<open>m_\<close> of the source is
  the field \<open>c_m\<close> here, \<open>c\<close> abbreviating its class: \<open>it_idx\<close> is \<open>iterator::idx_\<close>,
  \<open>pq_root\<close> is \<open>priority_queue::root_\<close>.
\<close>

type_synonym addr = nat

record iterator =
  it_ptr :: addr
  it_idx :: "32 word"

text \<open>\<open>iterator operator+(const int &n) const\<close>: \<open>p.idx_ += n\<close>.\<close>

definition iterator_plus :: "iterator \<Rightarrow> 32 word \<Rightarrow> iterator" where
  "iterator_plus it n = it\<lparr>it_idx := it_idx it + n\<rparr>"

text \<open>\<open>iterator operator-(const int &n) const\<close>: the source writes \<open>p.idx_ += n\<close> here too.\<close>

definition iterator_minus :: "iterator \<Rightarrow> 32 word \<Rightarrow> iterator" where
  "iterator_minus it n = it\<lparr>it_idx := it_idx it + n\<rparr>"

text \<open>\<open>iterator& operator-=(const int &n)\<close>: \<open>idx_ -= n\<close>.\<close>

definition iterator_minus_assign :: "iterator \<Rightarrow> 32 word \<Rightarrow> iterator" where
  "iterator_minus_assign it n = it\<lparr>it_idx := it_idx it - n\<rparr>"

text \<open>The class \<open>const_iterator\<close> repeats the same members.\<close>

record const_iterator =
  cit_ptr :: addr
  cit_idx :: "32 word"

definition const_iterator_plus :: "const_iterator \<Rightarrow> 32 word \<Rightarrow> const_iterator" where
  "const_iterator_plus it n = it\<lparr>cit_idx := cit_idx it + n\<rparr>"

definition const_iterator_minus :: "const_iterator \<Rightarrow> 32 word \<Rightarrow> const_iterator" where
  "const_iterator_minus it n = it\<lparr>cit_idx := cit_idx it + n\<rparr>"

text \<open>
  \<open>begin()\<close> is \<open>iterator(data_, 0)\<close>, and \<open>*it\<close> reads \<open>ptr_[idx_]\<close>. The buffer of a
  vector is given by its address and its elements; a read outside the elements is
  undefined in the source and is the value \<open>None\<close> here.
\<close>

record 'a vector =
  vec_data :: addr
  elems :: "'a list"

definition begin_it :: "'a vector \<Rightarrow> iterator" where
  "begin_it v = \<lparr>it_ptr = vec_data v, it_idx = 0\<rparr>"

definition deref :: "'a vector \<Rightarrow> iterator \<Rightarrow> 'a option" where
  "deref v it =
     (if it_ptr it = vec_data v \<and> 0 \<le> sint (it_idx it) \<and> nat (sint (it_idx it)) < length (elems v)
      then Some (elems v ! nat (sint (it_idx it))) else None)"

section \<open>The priority queue of \<open>priority_queue.hpp\<close>\<close>

subsection \<open>Nodes, the store and the queues\<close>

text \<open>
  A \<open>heapnode\<close> holds a value and two child pointers; \<open>None\<close> is \<open>nullptr\<close>. The nodes
  live in a store indexed by address: entry \<open>a\<close> is \<open>Some n\<close> while the node at \<open>a\<close> is
  allocated and \<open>None\<close> once it has been deleted. \<open>new\<close> extends the store by one entry,
  so the address it returns is fresh.
\<close>

record 'a heapnode =
  val :: 'a
  ls :: "addr option"
  rs :: "addr option"

type_synonym 'a heap = "'a heapnode option list"

definition node_at :: "'a heap \<Rightarrow> addr \<Rightarrow> 'a heapnode option" where
  "node_at h a = (if a < length h then h ! a else None)"

definition store :: "'a heap \<Rightarrow> addr \<Rightarrow> 'a heapnode \<Rightarrow> 'a heap" where
  "store h a n = h[a := Some n]"

text \<open>
  \<open>new heapnode(v)\<close>: the constructor sets both children to \<open>nullptr\<close>. Allocation
  and the copy of the value always succeed here.
\<close>

definition new_node :: "'a heap \<Rightarrow> 'a \<Rightarrow> 'a heap \<times> addr" where
  "new_node h v = (h @ [Some \<lparr>val = v, ls = None, rs = None\<rparr>], length h)"

definition delete_node :: "'a heap \<Rightarrow> addr \<Rightarrow> 'a heap" where
  "delete_node h a = h[a := None]"

text \<open>
  The outcomes other than a normal return: the exception \<open>container_is_empty\<close>, an
  exception thrown by the ordering predicate, and the two undefined behaviours the code
  can reach, a dereferenced null pointer and a use of a deleted node.
\<close>

datatype error = container_is_empty | compare_exception | null_dereference | dangling_pointer

text \<open>
  \<open>Compare()(a, b)\<close> builds a fresh predicate object at every call, so its answer depends
  on the two values only: \<open>Some b\<close> when it returns \<open>b\<close>, \<open>None\<close> when it throws.
\<close>

type_synonym 'a compare = "'a \<Rightarrow> 'a \<Rightarrow> bool option"

text \<open>
  A queue object holds \<open>root_\<close> and \<open>size_\<close>. The count is a \<open>size_t\<close>; it is a natural
  number here, since it is bounded by the number of allocated nodes. Queue objects are
  named by natural numbers, so that \<open>this == &other\<close> is the equality of two names.
\<close>

record pq =
  pq_root :: "addr option"
  pq_size :: nat

record 'a world =
  nodes :: "'a heap"
  queues :: "nat \<Rightarrow> pq"

subsection \<open>The private members\<close>

text \<open>
  \<open>heapnode *merge(heapnode *x, heapnode *y)\<close>. The recursion follows pointers, so on a
  store with a cycle it need not return: the result is an option, \<open>None\<close> for a call that
  never returns. A returning call yields the store it leaves and either the pointer
  returned or the error raised. Note that \<open>x->rs = x->ls\<close> is written before the
  recursive call and \<open>x->ls\<close> after it.
\<close>

partial_function (option) merge_node ::
  "'a compare \<Rightarrow> 'a heap \<Rightarrow> addr option \<Rightarrow> addr option \<Rightarrow> ('a heap \<times> (error + addr option)) option"
where
  "merge_node cmp h x y =
    (case x of None \<Rightarrow> Some (h, Inr y)
     | Some xa \<Rightarrow>
    (case y of None \<Rightarrow> Some (h, Inr x)
     | Some ya \<Rightarrow>
    (case node_at h xa of None \<Rightarrow> Some (h, Inl dangling_pointer)
     | Some xn \<Rightarrow>
    (case node_at h ya of None \<Rightarrow> Some (h, Inl dangling_pointer)
     | Some yn \<Rightarrow>
    (case cmp (val xn) (val yn) of None \<Rightarrow> Some (h, Inl compare_exception)
     | Some b \<Rightarrow>
        (let x' = (if b then ya else xa);
             y' = (if b then xa else ya);
             n = (if b then yn else xn);
             tmp = rs n;
             h1 = store h x' (n\<lparr>rs := ls n\<rparr>)
         in Option.bind (merge_node cmp h1 tmp (Some y'))
              (\<lambda>(h2, r).
                 case r of Inl e \<Rightarrow> Some (h2, Inl e)
                 | Inr m \<Rightarrow>
                     (case node_at h2 x' of None \<Rightarrow> Some (h2, Inl dangling_pointer)
                      | Some n2 \<Rightarrow> Some (store h2 x' (n2\<lparr>ls := m\<rparr>), Inr (Some x'))))))))))"

declare merge_node.simps [code]

text \<open>
  \<open>void clear(heapnode *x)\<close>: both subtrees are cleared, then \<open>x\<close> is deleted. \<open>x->rs\<close> is
  read after \<open>clear(x->ls)\<close> has returned, and \<open>delete x\<close> after both; a node deleted in
  between is a use of a dangling pointer.
\<close>

partial_function (option) clear :: "'a heap \<Rightarrow> addr option \<Rightarrow> (error + 'a heap) option"
where
  "clear h x =
    (case x of None \<Rightarrow> Some (Inr h)
     | Some a \<Rightarrow>
    (case node_at h a of None \<Rightarrow> Some (Inl dangling_pointer)
     | Some n \<Rightarrow>
        Option.bind (clear h (ls n))
          (\<lambda>r1. case r1 of Inl e \<Rightarrow> Some (Inl e)
             | Inr h1 \<Rightarrow>
            (case node_at h1 a of None \<Rightarrow> Some (Inl dangling_pointer)
             | Some n1 \<Rightarrow>
                Option.bind (clear h1 (rs n1))
                  (\<lambda>r2. case r2 of Inl e \<Rightarrow> Some (Inl e)
                     | Inr h2 \<Rightarrow>
                    (case node_at h2 a of None \<Rightarrow> Some (Inl dangling_pointer)
                     | Some n2 \<Rightarrow> Some (Inr (delete_node h2 a))))))))"

declare clear.simps [code]

text \<open>
  \<open>heapnode *clonenode(heapnode *other)\<close>: a new node with the value of \<open>other\<close>, then the
  clones of the two subtrees are linked into it. The calls only allocate nodes and write
  to the nodes they allocated, so the fields of \<open>other\<close> are read once.
\<close>

partial_function (option) clonenode ::
  "'a heap \<Rightarrow> addr option \<Rightarrow> (error + 'a heap \<times> addr option) option"
where
  "clonenode h other =
    (case other of None \<Rightarrow> Some (Inr (h, None))
     | Some a \<Rightarrow>
    (case node_at h a of None \<Rightarrow> Some (Inl dangling_pointer)
     | Some n \<Rightarrow>
        (let (h1, rt) = new_node h (val n)
         in Option.bind (clonenode h1 (ls n))
              (\<lambda>r1. case r1 of Inl e \<Rightarrow> Some (Inl e)
                 | Inr (h2, l) \<Rightarrow>
                (case node_at h2 rt of None \<Rightarrow> Some (Inl dangling_pointer)
                 | Some rn \<Rightarrow>
                    Option.bind (clonenode (store h2 rt (rn\<lparr>ls := l\<rparr>)) (rs n))
                      (\<lambda>r2. case r2 of Inl e \<Rightarrow> Some (Inl e)
                         | Inr (h3, r) \<Rightarrow>
                        (case node_at h3 rt of None \<Rightarrow> Some (Inl dangling_pointer)
                         | Some rn' \<Rightarrow>
                            Some (Inr (store h3 rt (rn'\<lparr>rs := r\<rparr>), Some rt)))))))))"

declare clonenode.simps [code]

subsection \<open>The public members\<close>

text \<open>
  Every member takes the world and the name \<open>i\<close> of the queue it is called on. A member
  that changes the world returns the world it leaves together with \<open>Inr ()\<close> for a normal
  return or \<open>Inl e\<close> for the exception that leaves it (or the undefined behaviour reached).
\<close>

text \<open>\<open>priority_queue()\<close>: the empty queue.\<close>

definition empty_queue :: pq where
  "empty_queue = \<lparr>pq_root = None, pq_size = 0\<rparr>"

definition construct :: "'a world \<Rightarrow> nat \<Rightarrow> 'a world" where
  "construct w i = w\<lparr>queues := (queues w)(i := empty_queue)\<rparr>"

text \<open>The world before any queue has been used: no node, every queue empty.\<close>

definition init_world :: "'a world" where
  "init_world = \<lparr>nodes = [], queues = (\<lambda>_. empty_queue)\<rparr>"

text \<open>\<open>priority_queue(const priority_queue &other)\<close>, building queue \<open>i\<close> from queue \<open>j\<close>.\<close>

definition copy_construct :: "'a world \<Rightarrow> nat \<Rightarrow> nat \<Rightarrow> ('a world \<times> (error + unit)) option" where
  "copy_construct w i j =
     Option.bind (clonenode (nodes w) (pq_root (queues w j)))
       (\<lambda>r. case r of Inl e \<Rightarrow> Some (w, Inl e)
          | Inr (h1, p) \<Rightarrow>
              Some (w\<lparr>nodes := h1,
                      queues := (queues w)(i := \<lparr>pq_root = p, pq_size = pq_size (queues w j)\<rparr>)\<rparr>,
                    Inr ()))"

text \<open>\<open>operator=(const priority_queue &other)\<close>, assigning queue \<open>j\<close> to queue \<open>i\<close>.\<close>

definition assign :: "'a world \<Rightarrow> nat \<Rightarrow> nat \<Rightarrow> ('a world \<times> (error + unit)) option" where
  "assign w i j =
     (if i = j then Some (w, Inr ())
      else Option.bind (clear (nodes w) (pq_root (queues w i)))
        (\<lambda>r. case r of Inl e \<Rightarrow> Some (w, Inl e)
           | Inr h1 \<Rightarrow>
               Option.bind (clonenode h1 (pq_root (queues w j)))
                 (\<lambda>r'. case r' of Inl e \<Rightarrow> Some (w\<lparr>nodes := h1\<rparr>, Inl e)
                    | Inr (h2, p) \<Rightarrow>
                        Some (w\<lparr>nodes := h2,
                                queues := (queues w)
                                  (i := \<lparr>pq_root = p, pq_size = pq_size (queues w j)\<rparr>)\<rparr>,
                              Inr ()))))"

text \<open>\<open>const T &top() const\<close>.\<close>

definition top_pq :: "'a world \<Rightarrow> nat \<Rightarrow> error + 'a" where
  "top_pq w i =
     (if pq_size (queues w i) = 0 then Inl container_is_empty
      else case pq_root (queues w i) of None \<Rightarrow> Inl null_dereference
        | Some a \<Rightarrow>
            (case node_at (nodes w) a of None \<Rightarrow> Inl dangling_pointer
             | Some n \<Rightarrow> Inr (val n)))"

text \<open>
  \<open>void push(const T &e)\<close>: \<open>root_\<close> and \<open>size_\<close> are assigned only when \<open>merge\<close> has
  returned; the handler deletes the new node and rethrows.
\<close>

definition push :: "'a compare \<Rightarrow> 'a world \<Rightarrow> nat \<Rightarrow> 'a \<Rightarrow> ('a world \<times> (error + unit)) option" where
  "push cmp w i e =
     (let (h1, newnode) = new_node (nodes w) e
      in Option.bind (merge_node cmp h1 (pq_root (queues w i)) (Some newnode))
           (\<lambda>(h2, r). case r of
                Inl err \<Rightarrow> Some (w\<lparr>nodes := delete_node h2 newnode\<rparr>, Inl err)
              | Inr m \<Rightarrow>
                  Some (w\<lparr>nodes := h2,
                          queues := (queues w)
                            (i := \<lparr>pq_root = m, pq_size = pq_size (queues w i) + 1\<rparr>)\<rparr>,
                        Inr ())))"

text \<open>
  \<open>void pop()\<close>: the old root is deleted and \<open>size_\<close> decremented only when \<open>merge\<close> has
  returned.
\<close>

definition pop :: "'a compare \<Rightarrow> 'a world \<Rightarrow> nat \<Rightarrow> ('a world \<times> (error + unit)) option" where
  "pop cmp w i =
     (if pq_size (queues w i) = 0 then Some (w, Inl container_is_empty)
      else case pq_root (queues w i) of None \<Rightarrow> Some (w, Inl null_dereference)
        | Some tmp \<Rightarrow>
            (case node_at (nodes w) tmp of None \<Rightarrow> Some (w, Inl dangling_pointer)
             | Some n \<Rightarrow>
                 Option.bind (merge_node cmp (nodes w) (ls n) (rs n))
                   (\<lambda>(h1, r). case r of
                        Inl err \<Rightarrow> Some (w\<lparr>nodes := h1\<rparr>, Inl err)
                      | Inr m \<Rightarrow>
                          Some (w\<lparr>nodes := delete_node h1 tmp,
                                  queues := (queues w)
                                    (i := \<lparr>pq_root = m, pq_size = pq_size (queues w i) - 1\<rparr>)\<rparr>,
                                Inr ()))))"

text \<open>\<open>size_t size() const\<close> and \<open>bool empty() const\<close>.\<close>

definition size_pq :: "'a world \<Rightarrow> nat \<Rightarrow> nat" where
  "size_pq w i = pq_size (queues w i)"

definition empty_pq :: "'a world \<Rightarrow> nat \<Rightarrow> bool" where
  "empty_pq w i = (pq_size (queues w i) = 0)"

text \<open>
  \<open>void merge(priority_queue &other)\<close>, merging queue \<open>j\<close> into queue \<open>i\<close>. Before the
  merge the predicate is called once on \<open>root_->val\<close> and \<open>other.root_->val\<close>, with no
  test for a null root; its answer is discarded.
\<close>

definition merge :: "'a compare \<Rightarrow> 'a world \<Rightarrow> nat \<Rightarrow> nat \<Rightarrow> ('a world \<times> (error + unit)) option" where
  "merge cmp w i j =
     (if i = j then Some (w, Inr ())
      else case pq_root (queues w i) of None \<Rightarrow> Some (w, Inl null_dereference)
        | Some a \<Rightarrow>
      (case pq_root (queues w j) of None \<Rightarrow> Some (w, Inl null_dereference)
        | Some b \<Rightarrow>
      (case node_at (nodes w) a of None \<Rightarrow> Some (w, Inl dangling_pointer)
        | Some an \<Rightarrow>
      (case node_at (nodes w) b of None \<Rightarrow> Some (w, Inl dangling_pointer)
        | Some bn \<Rightarrow>
      (case cmp (val an) (val bn) of None \<Rightarrow> Some (w, Inl compare_exception)
        | Some _ \<Rightarrow>
            Option.bind (merge_node cmp (nodes w) (Some a) (Some b))
              (\<lambda>(h1, r). case r of
                   Inl err \<Rightarrow> Some (w\<lparr>nodes := h1\<rparr>, Inl err)
                 | Inr m \<Rightarrow>
                     Some (w\<lparr>nodes := h1,
                             queues := (queues w)
                               (i := \<lparr>pq_root = m,
                                      pq_size = pq_size (queues w i) + pq_size (queues w j)\<rparr>,
                                j := \<lparr>pq_root = None, pq_size = 0\<rparr>)\<rparr>,
                           Inr ())))))))"

text \<open>A call of a member, and the queues it is called on or is given.\<close>

datatype 'a call = Push nat 'a | Pop nat | Merge nat nat | Assign nat nat | Copy nat nat

fun step :: "'a compare \<Rightarrow> 'a world \<Rightarrow> 'a call \<Rightarrow> ('a world \<times> (error + unit)) option" where
  "step cmp w (Push i e) = push cmp w i e"
| "step cmp w (Pop i) = pop cmp w i"
| "step cmp w (Merge i j) = merge cmp w i j"
| "step cmp w (Assign i j) = assign w i j"
| "step cmp w (Copy i j) = copy_construct w i j"

fun touches :: "'a call \<Rightarrow> nat list" where
  "touches (Push i e) = [i]"
| "touches (Pop i) = [i]"
| "touches (Merge i j) = [i, j]"
| "touches (Assign i j) = [i, j]"
| "touches (Copy i j) = [i, j]"

text \<open>
  A sequence of calls, one after the other, up to the first that does not return normally:
  the outcome is that of this call, or \<open>Inr ()\<close> when all return normally.
\<close>

fun run :: "'a compare \<Rightarrow> 'a world \<Rightarrow> 'a call list \<Rightarrow> ('a world \<times> (error + unit)) option" where
  "run cmp w [] = Some (w, Inr ())"
| "run cmp w (c # cs) =
     (case step cmp w c of
        Some (w', Inr u) \<Rightarrow> run cmp w' cs
      | out \<Rightarrow> out)"

text \<open>The outcomes after which the program still has a meaning: all but undefined behaviour.\<close>

definition defined_outcome :: "error + unit \<Rightarrow> bool" where
  "defined_outcome r = (r \<noteq> Inl null_dereference \<and> r \<noteq> Inl dangling_pointer)"

text \<open>The worlds reached from the initial one by calls that all return normally.\<close>

inductive reachable :: "'a compare \<Rightarrow> 'a world \<Rightarrow> bool" for cmp :: "'a compare" where
  reachable_init: "reachable cmp init_world"
| reachable_step: "reachable cmp w \<Longrightarrow> step cmp w c = Some (w', Inr ()) \<Longrightarrow> reachable cmp w'"

subsection \<open>Trees in the store\<close>

text \<open>
  The tree a pointer leads to, with the address and the value of every node. \<open>rep h t p\<close>
  says that in the store \<open>h\<close> the pointer \<open>p\<close> leads to exactly the tree \<open>t\<close>; the nodes
  are pairwise different when \<open>addrs t\<close> is distinct.
\<close>

datatype 'a tree = Leaf | Node "'a tree" addr 'a "'a tree"

fun addrs :: "'a tree \<Rightarrow> addr list" where
  "addrs Leaf = []"
| "addrs (Node l a v r) = a # addrs l @ addrs r"

fun vals :: "'a tree \<Rightarrow> 'a multiset" where
  "vals Leaf = {#}"
| "vals (Node l a v r) = add_mset v (vals l + vals r)"

fun rep :: "'a heap \<Rightarrow> 'a tree \<Rightarrow> addr option \<Rightarrow> bool" where
  "rep h Leaf p = (p = None)"
| "rep h (Node l a v r) p =
     (p = Some a \<and>
      (case node_at h a of None \<Rightarrow> False
       | Some n \<Rightarrow> val n = v \<and> rep h l (ls n) \<and> rep h r (rs n)))"

text \<open>
  A queue is well formed when its root leads to a tree of pairwise different nodes and its
  count is the number of these nodes.
\<close>

definition queue_ok :: "'a world \<Rightarrow> nat \<Rightarrow> 'a tree \<Rightarrow> bool" where
  "queue_ok w i t =
     (rep (nodes w) t (pq_root (queues w i)) \<and> distinct (addrs t)
      \<and> pq_size (queues w i) = length (addrs t))"

text \<open>
  The order between a node and its children: \<open>children_ok R t\<close> holds when \<open>R v c\<close> holds
  for the value \<open>v\<close> of every node of \<open>t\<close> and the value \<open>c\<close> of each of its children.
\<close>

fun root_val :: "'a tree \<Rightarrow> 'a option" where
  "root_val Leaf = None"
| "root_val (Node l a v r) = Some v"

fun children_ok :: "('a \<Rightarrow> 'a \<Rightarrow> bool) \<Rightarrow> 'a tree \<Rightarrow> bool" where
  "children_ok R Leaf = True"
| "children_ok R (Node l a v r) =
     ((case root_val l of None \<Rightarrow> True | Some c \<Rightarrow> R v c) \<and>
      (case root_val r of None \<Rightarrow> True | Some c \<Rightarrow> R v c) \<and>
      children_ok R l \<and> children_ok R r)"

text \<open>The predicate applied to (node, child) is false; and applied to (child, node).\<close>

definition not_before :: "'a compare \<Rightarrow> 'a \<Rightarrow> 'a \<Rightarrow> bool" where
  "not_before cmp v c = (cmp v c = Some False)"

definition child_not_before :: "'a compare \<Rightarrow> 'a \<Rightarrow> 'a \<Rightarrow> bool" where
  "child_not_before cmp v c = (cmp c v = Some False)"

text \<open>
  The two laws of a strict weak ordering that the heap order rests on, for a predicate
  that may throw: asymmetry, and transitivity of "not before".
\<close>

definition asymmetric :: "'a compare \<Rightarrow> bool" where
  "asymmetric cmp = (\<forall>a b. cmp a b = Some True \<longrightarrow> cmp b a = Some False)"

definition negatively_transitive :: "'a compare \<Rightarrow> bool" where
  "negatively_transitive cmp =
     (\<forall>a b c. cmp a b = Some False \<longrightarrow> cmp b c = Some False \<longrightarrow> cmp a c = Some False)"

text \<open>
  What \<open>merge_node\<close> does, on trees: the winner of the comparison keeps its left subtree
  as its right one, and gets as left subtree the merge of its right subtree with the
  loser. \<open>None\<close> when a comparison throws.
\<close>

function tmerge :: "'a compare \<Rightarrow> 'a tree \<Rightarrow> 'a tree \<Rightarrow> 'a tree option" where
  "tmerge cmp Leaf y = Some y"
| "tmerge cmp (Node l a v r) Leaf = Some (Node l a v r)"
| "tmerge cmp (Node l1 a1 v1 r1) (Node l2 a2 v2 r2) =
     (case cmp v1 v2 of None \<Rightarrow> None
      | Some b \<Rightarrow>
          if b then map_option (\<lambda>m. Node m a2 v2 l2) (tmerge cmp r2 (Node l1 a1 v1 r1))
          else map_option (\<lambda>m. Node m a1 v1 l1) (tmerge cmp r1 (Node l2 a2 v2 r2)))"
  by pat_completeness auto
termination
  by (relation "measure (\<lambda>(cmp, x, y). size x + size y)") auto

text \<open>What \<open>clonenode\<close> builds: the same tree at fresh addresses, allocated in preorder.\<close>

fun relabel :: "addr \<Rightarrow> 'a tree \<Rightarrow> 'a tree" where
  "relabel k Leaf = Leaf"
| "relabel k (Node l a v r) =
     Node (relabel (Suc k) l) k v (relabel (Suc k + length (addrs l)) r)"

text \<open>The depth of a tree, to bound the paths that \<open>reach\<close> follows.\<close>

fun depth :: "'a tree \<Rightarrow> nat" where
  "depth Leaf = 0"
| "depth (Node l a v r) = Suc (max (depth l) (depth r))"

text \<open>
  The allocated nodes a pointer leads to, in any store: those met on the paths of at most
  \<open>k\<close> nodes. A node that can be reached at all is reached on a path that visits no node
  twice, so \<open>k = length h\<close> finds them all.
\<close>

fun reach :: "nat \<Rightarrow> 'a heap \<Rightarrow> addr option \<Rightarrow> addr list" where
  "reach 0 h p = []"
| "reach (Suc k) h p =
     (case p of None \<Rightarrow> []
      | Some a \<Rightarrow>
          (case node_at h a of None \<Rightarrow> []
           | Some n \<Rightarrow> a # reach k h (ls n) @ reach k h (rs n)))"

definition live_nodes :: "'a world \<Rightarrow> nat \<Rightarrow> nat" where
  "live_nodes w i = length (remdups (reach (length (nodes w)) (nodes w) (pq_root (queues w i))))"

subsection \<open>Worlds of well-formed queues\<close>

text \<open>
  A world is well formed, with the trees \<open>T\<close>, when every queue \<open>i\<close> holds the tree
  \<open>T i\<close> and no node belongs to two queues.
\<close>

definition world_inv :: "'a world \<Rightarrow> (nat \<Rightarrow> 'a tree) \<Rightarrow> bool" where
  "world_inv w T =
     ((\<forall>i. queue_ok w i (T i)) \<and>
      (\<forall>i j. i \<noteq> j \<longrightarrow> set (addrs (T i)) \<inter> set (addrs (T j)) = {}))"

text \<open>
  What a call does to the trees of the queues, when it returns normally; \<open>k\<close> is the
  address the next new node gets. \<open>None\<close> when the call raises.
\<close>

fun tstep :: "'a compare \<Rightarrow> addr \<Rightarrow> (nat \<Rightarrow> 'a tree) \<Rightarrow> 'a call \<Rightarrow> (nat \<Rightarrow> 'a tree) option" where
  "tstep cmp k T (Push i e) =
     map_option (\<lambda>t. T(i := t)) (tmerge cmp (T i) (Node Leaf k e Leaf))"
| "tstep cmp k T (Pop i) =
     (case T i of Leaf \<Rightarrow> None
      | Node l a v r \<Rightarrow> map_option (\<lambda>t. T(i := t)) (tmerge cmp l r))"
| "tstep cmp k T (Merge i j) =
     (if i = j then Some T
      else if T i = Leaf \<or> T j = Leaf then None
      else map_option (\<lambda>t. T(i := t, j := Leaf)) (tmerge cmp (T i) (T j)))"
| "tstep cmp k T (Assign i j) = Some (if i = j then T else T(i := relabel k (T j)))"
| "tstep cmp k T (Copy i j) = Some (T(i := relabel k (T j)))"

text \<open>
  The outcome of a call in a well-formed world: it returns; the queues it does not touch
  keep their fields and their trees; when the trees say that it returns normally, it does
  and leaves a well-formed world with these trees; otherwise it raises and leaves the
  fields of every queue as they were.
\<close>

definition call_post ::
  "'a compare \<Rightarrow> 'a world \<Rightarrow> (nat \<Rightarrow> 'a tree) \<Rightarrow> 'a call
     \<Rightarrow> ('a world \<times> (error + unit)) option \<Rightarrow> bool" where
  "call_post cmp w T c out =
     (\<exists>w' r. out = Some (w', r) \<and>
        (\<forall>k. k \<notin> set (touches c) \<longrightarrow> queues w' k = queues w k \<and> queue_ok w' k (T k)) \<and>
        (case tstep cmp (length (nodes w)) T c of
           Some T' \<Rightarrow> r = Inr () \<and> world_inv w' T'
         | None \<Rightarrow> queues w' = queues w \<and>
             (r = Inl compare_exception \<or> r = Inl null_dereference \<or> r = Inl container_is_empty)))"

text \<open>
  The outcome of \<open>merge_node\<close> on two trees of the store \<open>h\<close>: it returns, it changes
  no node outside the set \<open>F\<close> and allocates none, and it either raises the predicate's
  exception (when the merge of the trees is \<open>None\<close>) or returns a pointer to the merged
  tree.
\<close>

definition merge_post ::
  "'a heap \<Rightarrow> addr set \<Rightarrow> ('a heap \<times> (error + addr option)) option \<Rightarrow> 'a tree option \<Rightarrow> bool" where
  "merge_post h F out tres =
     (\<exists>h' res. out = Some (h', res) \<and> length h' = length h \<and>
        (\<forall>a. a \<notin> F \<longrightarrow> node_at h' a = node_at h a) \<and>
        (case tres of None \<Rightarrow> res = Inl compare_exception
         | Some t \<Rightarrow> \<exists>m. res = Inr m \<and> rep h' t m))"

text \<open>
  \<open>copied cmp w T i j w'\<close>: in \<open>w'\<close> queue \<open>i\<close> is a copy of queue \<open>j\<close> of the world
  \<open>w\<close>, whose trees were \<open>T\<close>. Queue \<open>j\<close> is as it was; queue \<open>i\<close> holds a tree \<open>t\<close> of
  the same elements and the same size, with no node in common with that of queue \<open>j\<close> (or
  of any other queue); and whatever calls follow, run up to the first that does not return
  normally (undefined behaviour aside), a queue that none of them is called on or is given
  keeps its fields, its tree and its \<open>top\<close>.
\<close>

definition copied ::
  "'a compare \<Rightarrow> 'a world \<Rightarrow> (nat \<Rightarrow> 'a tree) \<Rightarrow> nat \<Rightarrow> nat \<Rightarrow> 'a world \<Rightarrow> bool" where
  "copied cmp w T i j w' =
     (\<exists>t. world_inv w' (T(i := t)) \<and> queues w' j = queues w j
        \<and> vals t = vals (T j) \<and> size_pq w' i = size_pq w' j
        \<and> set (addrs t) \<inter> set (addrs (T j)) = {}
        \<and> (\<forall>cs w'' r k.
              run cmp w' cs = Some (w'', r) \<and> defined_outcome r
              \<and> (\<forall>c \<in> set cs. k \<notin> set (touches c)) \<longrightarrow>
              queues w'' k = queues w' k \<and> queue_ok w'' k ((T(i := t)) k)
              \<and> top_pq w'' k = top_pq w' k))"

subsection \<open>Example predicates and worlds\<close>

text \<open>\<open>std::less<int>\<close>, and a predicate on \<open>int\<close> that throws when asked for (4, 7).\<close>

definition less_int :: "int compare" where
  "less_int a b = Some (a < b)"

definition throwing_less :: "int compare" where
  "throwing_less a b = (if a = 4 \<and> b = 7 then None else Some (a < b))"

text \<open>A vector holding 10, 20, 30.\<close>

definition v0 :: "int vector" where
  "v0 = \<lparr>vec_data = 0, elems = [10, 20, 30]\<rparr>"

text \<open>
  Queue 0 after \<open>push(10)\<close>, \<open>push(4)\<close>, \<open>push(3)\<close>; and the same with \<open>push(7)\<close> on
  queue 1 in addition.
\<close>

definition w_three :: "int world" where
  "w_three = \<lparr>nodes = [Some \<lparr>val = 10, ls = Some 2, rs = Some 1\<rparr>,
                        Some \<lparr>val = 4, ls = None, rs = None\<rparr>,
                        Some \<lparr>val = 3, ls = None, rs = None\<rparr>],
              queues = (\<lambda>_. empty_queue)(0 := \<lparr>pq_root = Some 0, pq_size = 3\<rparr>)\<rparr>"

definition w_four :: "int world" where
  "w_four = \<lparr>nodes = [Some \<lparr>val = 10, ls = Some 2, rs = Some 1\<rparr>,
                       Some \<lparr>val = 4, ls = None, rs = None\<rparr>,
                       Some \<lparr>val = 3, ls = None, rs = None\<rparr>,
                       Some \<lparr>val = 7, ls = None, rs = None\<rparr>],
             queues = (\<lambda>_. empty_queue)(0 := \<lparr>pq_root = Some 0, pq_size = 3\<rparr>,
                                           1 := \<lparr>pq_root = Some 3, pq_size = 1\<rparr>)\<rparr>"

text \<open>The worlds left by the failing \<open>push(7)\<close> on queue 0 of \<open>w_three\<close> and by the failing
  merge of queue 1 into queue 0 of \<open>w_four\<close>.\<close>

definition w_three_failed :: "int world" where
  "w_three_failed = \<lparr>nodes = [Some \<lparr>val = 10, ls = Some 2, rs = Some 2\<rparr>,
                        Some \<lparr>val = 4, ls = None, rs = None\<rparr>,
                        Some \<lparr>val = 3, ls = None, rs = None\<rparr>, None],
              queues = (\<lambda>_. empty_queue)(0 := \<lparr>pq_root = Some 0, pq_size = 3\<rparr>)\<rparr>"

definition w_four_failed :: "int world" where
  "w_four_failed = \<lparr>nodes = [Some \<lparr>val = 10, ls = Some 2, rs = Some 2\<rparr>,
                       Some \<lparr>val = 4, ls = None, rs = None\<rparr>,
                       Some \<lparr>val = 3, ls = None, rs = None\<rparr>,
                       Some \<lparr>val = 7, ls = None, rs = None\<rparr>],
             queues = (\<lambda>_. empty_queue)(0 := \<lparr>pq_root = Some 0, pq_size = 3\<rparr>,
                                           1 := \<lparr>pq_root = Some 3, pq_size = 1\<rparr>)\<rparr>"

text \<open>The tree of queue 0 in \<open>w_three\<close>.\<close>

definition t_three :: "int tree" where
  "t_three = Node (Node Leaf 2 3 Leaf) 0 10 (Node Leaf 1 4 Leaf)"

text \<open>
  The scenario of the specification: queue 0 after \<open>push\<close> of 5, 3, 8, 1 and one \<open>pop\<close>,
  queue 1 after \<open>push\<close> of 10 and 20; the world after queue 0 has been merged into
  queue 1; and the trees of the two queues before.
\<close>

definition w_scenario :: "int world" where
  "w_scenario = \<lparr>nodes = [Some \<lparr>val = 5, ls = Some 3, rs = Some 1\<rparr>,
                           Some \<lparr>val = 3, ls = None, rs = None\<rparr>,
                           None,
                           Some \<lparr>val = 1, ls = None, rs = None\<rparr>,
                           Some \<lparr>val = 10, ls = None, rs = None\<rparr>,
                           Some \<lparr>val = 20, ls = Some 4, rs = None\<rparr>],
                 queues = (\<lambda>_. empty_queue)(0 := \<lparr>pq_root = Some 0, pq_size = 3\<rparr>,
                                               1 := \<lparr>pq_root = Some 5, pq_size = 2\<rparr>)\<rparr>"

definition w_scenario_merged :: "int world" where
  "w_scenario_merged = \<lparr>nodes = [Some \<lparr>val = 5, ls = Some 3, rs = Some 1\<rparr>,
                           Some \<lparr>val = 3, ls = None, rs = None\<rparr>,
                           None,
                           Some \<lparr>val = 1, ls = None, rs = None\<rparr>,
                           Some \<lparr>val = 10, ls = None, rs = None\<rparr>,
                           Some \<lparr>val = 20, ls = Some 0, rs = Some 4\<rparr>],
                 queues = (\<lambda>_. empty_queue)(1 := \<lparr>pq_root = Some 5, pq_size = 5\<rparr>,
                                               0 := \<lparr>pq_root = None, pq_size = 0\<rparr>)\<rparr>"

definition t_first :: "int tree" where
  "t_first = Node (Node Leaf 3 1 Leaf) 0 5 (Node Leaf 1 3 Leaf)"

definition t_second :: "int tree" where
  "t_second = Node (Node Leaf 4 10 Leaf) 5 20 Leaf"

text \<open>
  The trees of \<open>w_three\<close>; the world after queue 0 of \<open>w_three\<close> has been copied to
  queue 1; and that world after a \<open>pop\<close> on queue 1.
\<close>

definition T_three :: "nat \<Rightarrow> int tree" where
  "T_three = (\<lambda>_. Leaf)(0 := t_three)"

definition w_copy :: "int world" where
  "w_copy = \<lparr>nodes = [Some \<lparr>val = 10, ls = Some 2, rs = Some 1\<rparr>,
                       Some \<lparr>val = 4, ls = None, rs = None\<rparr>,
                       Some \<lparr>val = 3, ls = None, rs = None\<rparr>,
                       Some \<lparr>val = 10, ls = Some 4, rs = Some 5\<rparr>,
                       Some \<lparr>val = 3, ls = None, rs = None\<rparr>,
                       Some \<lparr>val = 4, ls = None, rs = None\<rparr>],
             queues = (\<lambda>_. empty_queue)(0 := \<lparr>pq_root = Some 0, pq_size = 3\<rparr>,
                                           1 := \<lparr>pq_root = Some 3, pq_size = 3\<rparr>)\<rparr>"

definition w_copy_popped :: "int world" where
  "w_copy_popped = \<lparr>nodes = [Some \<lparr>val = 10, ls = Some 2, rs = Some 1\<rparr>,
                       Some \<lparr>val = 4, ls = None, rs = None\<rparr>,
                       Some \<lparr>val = 3, ls = None, rs = None\<rparr>,
                       None,
                       Some \<lparr>val = 3, ls = None, rs = None\<rparr>,
                       Some \<lparr>val = 4, ls = Some 4, rs = None\<rparr>],
             queues = (\<lambda>_. empty_queue)(0 := \<lparr>pq_root = Some 0, pq_size = 3\<rparr>,
                                           1 := \<lparr>pq_root = Some 5, pq_size = 2\<rparr>)\<rparr>"

section \<open>The store\<close>

lemma node_at_store:
  "node_at (store h a n) b = (if b = a \<and> a < length h then Some n else node_at h b)"
  by (auto simp: node_at_def store_def)

lemma length_store: "length (store h a n) = length h"
  by (simp add: store_def)

lemma node_at_delete:
  "node_at (delete_node h a) b = (if b = a then None else node_at h b)"
  by (auto simp: node_at_def delete_node_def)

lemma length_delete: "length (delete_node h a) = length h"
  by (simp add: delete_node_def)

lemma node_at_append:
  "node_at (h @ [x]) b = (if b = length h then x else node_at h b)"
  by (auto simp: node_at_def nth_append)

lemma node_at_Some_less: "node_at h a = Some n \<Longrightarrow> a < length h"
  by (auto simp: node_at_def split: if_splits)

lemma rep_less: "rep h t p \<Longrightarrow> a \<in> set (addrs t) \<Longrightarrow> a < length h"
  by (induction t arbitrary: p) (auto split: option.splits dest: node_at_Some_less)

lemma rep_cong:
  "rep h t p \<Longrightarrow> (\<And>a. a \<in> set (addrs t) \<Longrightarrow> node_at h' a = node_at h a) \<Longrightarrow> rep h' t p"
proof (induction t arbitrary: p)
  case Leaf
  then show ?case by simp
next
  case (Node l a v r)
  from Node.prems(1) obtain n where n: "p = Some a" "node_at h a = Some n" "val n = v"
    "rep h l (ls n)" "rep h r (rs n)"
    by (auto split: option.splits)
  have "node_at h' a = Some n" using Node.prems(2) [of a] n by simp
  moreover have "rep h' l (ls n)" using Node.IH(1) [OF n(4)] Node.prems(2) by simp
  moreover have "rep h' r (rs n)" using Node.IH(2) [OF n(5)] Node.prems(2) by simp
  ultimately show ?case using n by simp
qed

lemma rep_None: "rep h t None \<longleftrightarrow> t = Leaf"
  by (cases t) auto

lemma rep_Some:
  "rep h t (Some a) \<longleftrightarrow>
     (\<exists>l v r n. t = Node l a v r \<and> node_at h a = Some n \<and> val n = v \<and> rep h l (ls n) \<and> rep h r (rs n))"
  by (cases t) (auto split: option.splits)

lemma rep_unique: "rep h t p \<Longrightarrow> rep h t' p \<Longrightarrow> t = t'"
proof (induction t arbitrary: p t')
  case Leaf
  then show ?case by (simp add: rep_None)
next
  case (Node l a v r)
  then show ?case by (cases t') (auto split: option.splits)
qed

section \<open>Merging trees\<close>

lemma addrs_tmerge:
  "tmerge cmp x y = Some t \<Longrightarrow> mset (addrs t) = mset (addrs x) + mset (addrs y)"
  by (induction cmp x y arbitrary: t rule: tmerge.induct)
     (auto split: option.splits if_splits)

lemma vals_tmerge:
  "tmerge cmp x y = Some t \<Longrightarrow> vals t = vals x + vals y"
  by (induction cmp x y arbitrary: t rule: tmerge.induct)
     (auto split: option.splits if_splits)

lemma set_addrs_tmerge:
  "tmerge cmp x y = Some t \<Longrightarrow> set (addrs t) = set (addrs x) \<union> set (addrs y)"
  using addrs_tmerge [THEN arg_cong, of cmp x y t set_mset] by simp

lemma distinct_tmerge:
  "tmerge cmp x y = Some t \<Longrightarrow> distinct (addrs x @ addrs y) \<Longrightarrow> distinct (addrs t)"
  using addrs_tmerge [of cmp x y t] mset_eq_imp_distinct_iff [of "addrs t" "addrs x @ addrs y"]
  by simp

lemma length_addrs_tmerge:
  "tmerge cmp x y = Some t \<Longrightarrow> length (addrs t) = length (addrs x) + length (addrs y)"
  using addrs_tmerge [THEN arg_cong, of cmp x y t size] by simp

section \<open>\<open>merge_node\<close> on trees of the store\<close>

lemma winner_step:
  assumes w: "node_at h wa = Some wn" "val wn = v" "rep h l (ls wn)" "rep h r (rs wn)"
    and lo: "rep h ty (Some la)"
    and d: "distinct (wa # addrs l @ addrs r @ addrs ty)"
    and IH: "\<And>h x y. rep h r x \<Longrightarrow> rep h ty y \<Longrightarrow> distinct (addrs r @ addrs ty) \<Longrightarrow>
               merge_post h (set (addrs r) \<union> set (addrs ty)) (merge_node cmp h x y) (tmerge cmp r ty)"
  shows "merge_post h (insert wa (set (addrs l) \<union> set (addrs r) \<union> set (addrs ty)))
           (Option.bind (merge_node cmp (store h wa (wn\<lparr>rs := ls wn\<rparr>)) (rs wn) (Some la))
              (\<lambda>(h2, r). case r of Inl e \<Rightarrow> Some (h2, Inl e)
                 | Inr m \<Rightarrow>
                     (case node_at h2 wa of None \<Rightarrow> Some (h2, Inl dangling_pointer)
                      | Some n2 \<Rightarrow> Some (store h2 wa (n2\<lparr>ls := m\<rparr>), Inr (Some wa)))))
           (map_option (\<lambda>m. Node m wa v l) (tmerge cmp r ty))"
proof -
  let ?h1 = "store h wa (wn\<lparr>rs := ls wn\<rparr>)"
  have wa_less: "wa < length h" using w(1) by (rule node_at_Some_less)
  have h1_other: "node_at ?h1 a = node_at h a" if "a \<noteq> wa" for a
    using that by (simp add: node_at_store)
  have r1: "rep ?h1 r (rs wn)"
    using w(4) d by (auto intro!: rep_cong [of h r] h1_other)
  have ty1: "rep ?h1 ty (Some la)"
    using lo d by (auto intro!: rep_cong [of h ty] h1_other)
  have l1: "rep ?h1 l (ls wn)"
    using w(3) d by (auto intro!: rep_cong [of h l] h1_other)
  from IH [OF r1 ty1] d
  obtain h2 res where run: "merge_node cmp ?h1 (rs wn) (Some la) = Some (h2, res)"
    and len2: "length h2 = length ?h1"
    and frame2: "\<And>a. a \<notin> set (addrs r) \<union> set (addrs ty) \<Longrightarrow> node_at h2 a = node_at ?h1 a"
    and res: "case tmerge cmp r ty of None \<Rightarrow> res = Inl compare_exception
              | Some t \<Rightarrow> \<exists>m. res = Inr m \<and> rep h2 t m"
    unfolding merge_post_def by auto
  have len2': "length h2 = length h" using len2 by (simp add: length_store)
  have frame2': "node_at h2 a = node_at h a"
    if "a \<notin> insert wa (set (addrs l) \<union> set (addrs r) \<union> set (addrs ty))" for a
    using that frame2 [of a] h1_other [of a] by simp
  show ?thesis
  proof (cases "tmerge cmp r ty")
    case None
    with res have "res = Inl compare_exception" by simp
    with run None len2' frame2' show ?thesis
      unfolding merge_post_def by simp
  next
    case (Some t)
    with res obtain m where m: "res = Inr m" "rep h2 t m" by auto
    have wa2: "node_at h2 wa = Some (wn\<lparr>rs := ls wn\<rparr>)"
      using frame2 [of wa] d wa_less by (simp add: node_at_store)
    let ?h3 = "store h2 wa (wn\<lparr>rs := ls wn, ls := m\<rparr>)"
    have h3_other: "node_at ?h3 a = node_at h2 a" if "a \<noteq> wa" for a
      using that by (simp add: node_at_store)
    have sett: "set (addrs t) = set (addrs r) \<union> set (addrs ty)"
      using Some by (rule set_addrs_tmerge)
    have t3: "rep ?h3 t m"
      using m(2) d sett by (auto intro!: rep_cong [of h2 t] h3_other)
    have l3: "rep ?h3 l (ls wn)"
    proof (rule rep_cong [OF l1])
      fix a assume "a \<in> set (addrs l)"
      with d have "a \<noteq> wa" "a \<notin> set (addrs r) \<union> set (addrs ty)" by auto
      then show "node_at ?h3 a = node_at ?h1 a"
        using h3_other [of a] frame2 [of a] by simp
    qed
    have wa3: "node_at ?h3 wa = Some (wn\<lparr>rs := ls wn, ls := m\<rparr>)"
      using wa_less len2' by (simp add: node_at_store)
    have rep3: "rep ?h3 (Node t wa v l) (Some wa)"
      using wa3 t3 l3 w(2) by simp
    have frame3: "node_at ?h3 a = node_at h a"
      if "a \<notin> insert wa (set (addrs l) \<union> set (addrs r) \<union> set (addrs ty))" for a
      using that frame2' [of a] h3_other [of a] by simp
    show ?thesis
      unfolding merge_post_def
      using run m(1) wa2 Some rep3 frame3 len2' by (simp add: length_store)
  qed
qed

lemma merge_node_refines:
  "rep h tx x \<Longrightarrow> rep h ty y \<Longrightarrow> distinct (addrs tx @ addrs ty) \<Longrightarrow>
   merge_post h (set (addrs tx) \<union> set (addrs ty)) (merge_node cmp h x y) (tmerge cmp tx ty)"
proof (induction cmp tx ty arbitrary: h x y rule: tmerge.induct)
  case (1 cmp ty)
  then show ?case
    by (subst merge_node.simps) (simp add: merge_post_def)
next
  case (2 cmp l a v r)
  then show ?case
    by (subst merge_node.simps) (auto simp: merge_post_def split: option.splits)
next
  case (3 cmp l1 a1 v1 r1 l2 a2 v2 r2)
  let ?tx = "Node l1 a1 v1 r1" and ?ty = "Node l2 a2 v2 r2"
  from "3.prems"(1) obtain xn where x: "x = Some a1" "node_at h a1 = Some xn" "val xn = v1"
    "rep h l1 (ls xn)" "rep h r1 (rs xn)"
    by (auto split: option.splits)
  from "3.prems"(2) obtain yn where y: "y = Some a2" "node_at h a2 = Some yn" "val yn = v2"
    "rep h l2 (ls yn)" "rep h r2 (rs yn)"
    by (auto split: option.splits)
  show ?case
  proof (cases "cmp v1 v2")
    case None
    then show ?thesis
      using x y by (subst merge_node.simps) (simp add: merge_post_def)
  next
    case (Some b)
    show ?thesis
    proof (cases b)
      case True
      have d: "distinct (a2 # addrs l2 @ addrs r2 @ addrs ?tx)"
        using "3.prems"(3) by auto
      have IH: "\<And>h x y. rep h r2 x \<Longrightarrow> rep h ?tx y \<Longrightarrow> distinct (addrs r2 @ addrs ?tx) \<Longrightarrow>
               merge_post h (set (addrs r2) \<union> set (addrs ?tx)) (merge_node cmp h x y) (tmerge cmp r2 ?tx)"
        using "3.IH"(1) [OF Some True] by blast
      have F: "insert a2 (set (addrs l2) \<union> set (addrs r2) \<union> set (addrs ?tx))
                 = set (addrs ?tx) \<union> set (addrs ?ty)"
        by auto
      from winner_step [OF y(2,3,4,5) "3.prems"(1) [unfolded x(1)] d IH]
      show ?thesis
        using x y Some True unfolding F
        by (subst merge_node.simps) (simp add: Let_def)
    next
      case False
      have d: "distinct (a1 # addrs l1 @ addrs r1 @ addrs ?ty)"
        using "3.prems"(3) by auto
      have IH: "\<And>h x y. rep h r1 x \<Longrightarrow> rep h ?ty y \<Longrightarrow> distinct (addrs r1 @ addrs ?ty) \<Longrightarrow>
               merge_post h (set (addrs r1) \<union> set (addrs ?ty)) (merge_node cmp h x y) (tmerge cmp r1 ?ty)"
        using "3.IH"(2) [OF Some False] by blast
      have F: "insert a1 (set (addrs l1) \<union> set (addrs r1) \<union> set (addrs ?ty))
                 = set (addrs ?tx) \<union> set (addrs ?ty)"
        by auto
      from winner_step [OF x(2,3,4,5) "3.prems"(2) [unfolded y(1)] d IH]
      show ?thesis
        using x y Some False unfolding F
        by (subst merge_node.simps) (simp add: Let_def)
    qed
  qed
qed

section \<open>\<open>merge_node\<close> on any store\<close>

text \<open>The induction rule of \<open>merge_node\<close>, for facts about the calls that return.\<close>

lemmas merge_node_induct =
  merge_node.raw_induct [where xa = "(((cmp, h), x), y)" for cmp h x y, simplified, rotated, consumes 1, case_names step]

lemma store_vals:
  "node_at h a = Some n \<Longrightarrow> val n' = val n \<Longrightarrow>
   map (map_option val) (store h a n') = map (map_option val) h"
  by (auto simp: store_def node_at_def map_update list_eq_iff_nth_eq nth_list_update split: if_splits)

lemma merge_node_vals:
  "merge_node cmp h x y = Some (h', r) \<Longrightarrow> map (map_option val) h' = map (map_option val) h"
proof (induction cmp h x y "(h', r)" arbitrary: h' r rule: merge_node_induct)
  case (step mn cmp h x y)
  show ?case
  proof (cases "\<exists>xa ya xn yn b. x = Some xa \<and> y = Some ya \<and> node_at h xa = Some xn
                  \<and> node_at h ya = Some yn \<and> cmp (val xn) (val yn) = Some b")
    case False
    then show ?thesis using step.hyps(2)
      by (auto split: option.splits)
  next
    case True
    then obtain xa ya xn yn b where c: "x = Some xa" "y = Some ya" "node_at h xa = Some xn"
      "node_at h ya = Some yn" "cmp (val xn) (val yn) = Some b"
      by blast
    let ?wa = "if b then ya else xa" and ?wn = "if b then yn else xn"
    let ?la = "if b then xa else ya"
    have wn: "node_at h ?wa = Some ?wn" using c by simp
    let ?h1 = "store h ?wa (?wn\<lparr>rs := ls ?wn\<rparr>)"
    from step.hyps(2) c obtain h2 r2 where rec: "mn cmp ?h1 (rs ?wn) (Some ?la) = Some (h2, r2)"
      and fin: "(case r2 of Inl e \<Rightarrow> Some (h2, Inl e)
                 | Inr m \<Rightarrow> (case node_at h2 ?wa of None \<Rightarrow> Some (h2, Inl dangling_pointer)
                      | Some n2 \<Rightarrow> Some (store h2 ?wa (n2\<lparr>ls := m\<rparr>), Inr (Some ?wa)))) = Some (h', r)"
      by (auto simp: Let_def split: Option.bind_splits)
    have v1: "map (map_option val) ?h1 = map (map_option val) h"
      using wn by (rule store_vals) simp
    have v2: "map (map_option val) h2 = map (map_option val) ?h1"
      using step.hyps(1) [OF rec] .
    have "map (map_option val) h' = map (map_option val) h2"
      using fin by (auto split: sum.splits option.splits intro: store_vals)
    with v1 v2 show ?thesis by simp
  qed
qed

lemma merge_node_error:
  "merge_node cmp h x y = Some (h', Inl e) \<Longrightarrow> e = compare_exception \<or> e = dangling_pointer"
proof (induction cmp h x y "(h', Inl e :: error + addr option)" arbitrary: h' rule: merge_node_induct)
  case (step mn cmp h x y)
  then show ?case
    by (auto simp: Let_def split: option.splits Option.bind_splits sum.splits if_splits)
qed

lemma node_at_length: "node_at h (length h) = None"
  by (simp add: node_at_def)

lemma vals_node_at:
  "map (map_option val) h' = map (map_option val) h \<Longrightarrow>
   map_option val (node_at h' a) = map_option val (node_at h a)"
proof -
  assume eq: "map (map_option val) h' = map (map_option val) h"
  then have len: "length h' = length h" by (rule map_eq_imp_length_eq)
  show ?thesis
  proof (cases "a < length h")
    case True
    with eq len have "map (map_option val) h' ! a = map (map_option val) h ! a" by simp
    with True len show ?thesis by (simp add: node_at_def)
  next
    case False
    with len show ?thesis by (simp add: node_at_def)
  qed
qed

lemma top_pq_vals:
  "top_pq w i =
     (if pq_size (queues w i) = 0 then Inl container_is_empty
      else case pq_root (queues w i) of None \<Rightarrow> Inl null_dereference
        | Some a \<Rightarrow>
            (case map_option val (node_at (nodes w) a) of None \<Rightarrow> Inl dangling_pointer
             | Some v \<Rightarrow> Inr v))"
  by (simp add: top_pq_def split: option.splits)

section \<open>Evaluating the examples\<close>

lemmas eval_simps = push_def pop_def merge_def top_pq_def size_pq_def empty_pq_def new_node_def
  node_at_def store_def delete_node_def init_world_def empty_queue_def less_int_def
  throwing_less_def Let_def eval_nat_numeral

lemma w_three_reachable: "reachable throwing_less w_three"
proof -
  let ?w1 = "\<lparr>nodes = [Some \<lparr>val = 10::int, ls = None, rs = None\<rparr>],
      queues = (\<lambda>_. empty_queue)(0 := \<lparr>pq_root = Some 0, pq_size = 1\<rparr>)\<rparr>"
  let ?w2 = "\<lparr>nodes = [Some \<lparr>val = 10::int, ls = Some 1, rs = None\<rparr>,
                       Some \<lparr>val = 4, ls = None, rs = None\<rparr>],
      queues = (\<lambda>_. empty_queue)(0 := \<lparr>pq_root = Some 0, pq_size = 2\<rparr>)\<rparr>"
  have 1: "step throwing_less init_world (Push 0 10) = Some (?w1, Inr ())"
    by (simp add: eval_simps merge_node.simps)
  have 2: "step throwing_less ?w1 (Push 0 4) = Some (?w2, Inr ())"
    by (simp add: eval_simps merge_node.simps)
  have 3: "step throwing_less ?w2 (Push 0 3) = Some (w_three, Inr ())"
    by (simp add: eval_simps merge_node.simps w_three_def)
  show ?thesis
    using reachable_init [of throwing_less] 1 2 3 by (blast intro: reachable_step)
qed

lemma w_four_reachable: "reachable throwing_less w_four"
proof -
  have "step throwing_less w_three (Push 1 7) = Some (w_four, Inr ())"
    by (simp add: eval_simps merge_node.simps w_three_def w_four_def fun_upd_twist)
  with w_three_reachable show ?thesis by (rule reachable_step)
qed

section \<open>\<open>clear\<close> and \<open>clonenode\<close> on trees of the store\<close>

lemma length_addrs_relabel: "length (addrs (relabel k t)) = length (addrs t)"
  by (induction t arbitrary: k) auto

lemma upt_node:
  "[k ..< k + Suc (m + n)] = k # [Suc k ..< Suc k + m] @ [Suc k + m ..< Suc k + m + n]"
proof -
  have e: "k + Suc (m + n) = Suc k + m + n" by simp
  have "[k ..< Suc k + m + n] = k # [Suc k ..< Suc k + m + n]"
    by (rule upt_conv_Cons) simp
  also have "[Suc k ..< Suc k + m + n] = [Suc k ..< Suc k + m] @ [Suc k + m ..< Suc k + m + n]"
    by (rule upt_add_eq_append) simp
  finally show ?thesis unfolding e .
qed

lemma addrs_relabel: "addrs (relabel k t) = [k ..< k + length (addrs t)]"
proof (induction t arbitrary: k)
  case Leaf
  then show ?case by simp
next
  case (Node l a v r)
  have "addrs (relabel k (Node l a v r))
        = k # [Suc k ..< Suc k + length (addrs l)]
            @ [Suc k + length (addrs l) ..< Suc k + length (addrs l) + length (addrs r)]"
    using Node.IH by (simp add: length_addrs_relabel)
  also have "\<dots> = [k ..< k + Suc (length (addrs l) + length (addrs r))]"
    by (rule upt_node [symmetric])
  finally show ?case by simp
qed

lemma set_addrs_relabel: "set (addrs (relabel k t)) = {k ..< k + length (addrs t)}"
  by (simp only: addrs_relabel set_upt)

lemma vals_relabel: "vals (relabel k t) = vals t"
  by (induction t arbitrary: k) auto

lemma root_val_relabel: "root_val (relabel k t) = root_val t"
  by (cases t) auto

lemma children_ok_relabel: "children_ok R (relabel k t) = children_ok R t"
  by (induction t arbitrary: k) (auto simp: root_val_relabel)

lemma clear_refines:
  "rep h t p \<Longrightarrow> distinct (addrs t) \<Longrightarrow>
   \<exists>h'. clear h p = Some (Inr h') \<and> length h' = length h \<and>
     (\<forall>a. node_at h' a = (if a \<in> set (addrs t) then None else node_at h a))"
proof (induction t arbitrary: h p)
  case Leaf
  then show ?case by (subst clear.simps) simp
next
  case (Node l a v r)
  from Node.prems(1) obtain n where n: "p = Some a" "node_at h a = Some n" "val n = v"
    "rep h l (ls n)" "rep h r (rs n)"
    by (auto split: option.splits)
  from Node.prems(2) have d: "a \<notin> set (addrs l)" "a \<notin> set (addrs r)"
    "distinct (addrs l)" "distinct (addrs r)" "set (addrs l) \<inter> set (addrs r) = {}"
    by auto
  from Node.IH(1) [OF n(4) d(3)] obtain h1 where h1: "clear h (ls n) = Some (Inr h1)"
    "length h1 = length h"
    "\<And>b. node_at h1 b = (if b \<in> set (addrs l) then None else node_at h b)"
    by blast
  have a1: "node_at h1 a = Some n" using h1(3) [of a] d(1) n(2) by simp
  have "rep h1 r (rs n)"
    using n(5) d(5) by (auto intro!: rep_cong [of h r] simp: h1(3))
  from Node.IH(2) [OF this d(4)] obtain h2 where h2: "clear h1 (rs n) = Some (Inr h2)"
    "length h2 = length h1"
    "\<And>b. node_at h2 b = (if b \<in> set (addrs r) then None else node_at h1 b)"
    by blast
  have a2: "node_at h2 a = Some n" using h2(3) [of a] d(2) a1 by simp
  have run: "clear h p = Some (Inr (delete_node h2 a))"
    using n(1,2) h1(1) a1 h2(1) a2 by (subst clear.simps) simp
  have "node_at (delete_node h2 a) b
        = (if b \<in> set (addrs (Node l a v r)) then None else node_at h b)" for b
    by (simp add: node_at_delete h2(3) h1(3))
  with run h1(2) h2(2) show ?case by (simp add: length_delete)
qed

lemma clonenode_refines:
  "rep h t p \<Longrightarrow>
   \<exists>h' p'. clonenode h p = Some (Inr (h', p')) \<and> rep h' (relabel (length h) t) p' \<and>
     length h' = length h + length (addrs t) \<and>
     (\<forall>a. a < length h \<longrightarrow> node_at h' a = node_at h a)"
proof (induction t arbitrary: h p)
  case Leaf
  then show ?case by (subst clonenode.simps) simp
next
  case (Node l a v r)
  from Node.prems(1) obtain n where n: "p = Some a" "node_at h a = Some n" "val n = v"
    "rep h l (ls n)" "rep h r (rs n)"
    by (auto split: option.splits)
  let ?k = "length h"
  let ?new = "\<lparr>val = v, ls = None, rs = None\<rparr>"
  let ?h1 = "h @ [Some ?new]"
  have below1: "node_at ?h1 b = node_at h b" if "b < ?k" for b
    using that by (simp add: node_at_append)
  have "rep ?h1 l (ls n)"
    using n(4) by (auto intro!: rep_cong [of h l] below1 dest: rep_less)
  from Node.IH(1) [OF this] obtain h2 pl where h2: "clonenode ?h1 (ls n) = Some (Inr (h2, pl))"
    "rep h2 (relabel (Suc ?k) l) pl" "length h2 = Suc ?k + length (addrs l)"
    "\<And>b. b < Suc ?k \<Longrightarrow> node_at h2 b = node_at ?h1 b"
    by auto
  have k2: "node_at h2 ?k = Some ?new" using h2(4) [of ?k] by (simp add: node_at_append)
  let ?h2' = "store h2 ?k (?new\<lparr>ls := pl\<rparr>)"
  have other2: "node_at ?h2' b = node_at h2 b" if "b \<noteq> ?k" for b
    using that by (simp add: node_at_store)
  have "rep ?h2' r (rs n)"
  proof (rule rep_cong [OF n(5)])
    fix b assume "b \<in> set (addrs r)"
    then have "b < ?k" using n(5) by (rule rep_less [rotated])
    then show "node_at ?h2' b = node_at h b"
      using other2 [of b] h2(4) [of b] below1 [of b] by simp
  qed
  from Node.IH(2) [OF this] obtain h3 pr where h3: "clonenode ?h2' (rs n) = Some (Inr (h3, pr))"
    "rep h3 (relabel (Suc ?k + length (addrs l)) r) pr"
    "length h3 = Suc ?k + length (addrs l) + length (addrs r)"
    "\<And>b. b < Suc ?k + length (addrs l) \<Longrightarrow> node_at h3 b = node_at ?h2' b"
    by (auto simp: length_store h2(3))
  have k3: "node_at h3 ?k = Some (?new\<lparr>ls := pl\<rparr>)"
    using h3(4) [of ?k] h2(3) by (simp add: node_at_store)
  let ?h4 = "store h3 ?k (?new\<lparr>ls := pl, rs := pr\<rparr>)"
  have other4: "node_at ?h4 b = node_at h3 b" if "b \<noteq> ?k" for b
    using that by (simp add: node_at_store)
  have run: "clonenode h p = Some (Inr (?h4, Some ?k))"
    using n(1,2,3) h2(1) k2 h3(1) k3
    by (subst clonenode.simps) (simp add: new_node_def)
  have k4: "node_at ?h4 ?k = Some (?new\<lparr>ls := pl, rs := pr\<rparr>)"
    using h3(3) by (simp add: node_at_store)
  have l4: "rep ?h4 (relabel (Suc ?k) l) pl"
  proof (rule rep_cong [OF h2(2)])
    fix b assume "b \<in> set (addrs (relabel (Suc ?k) l))"
    then have "Suc ?k \<le> b" "b < Suc ?k + length (addrs l)"
      by (simp_all add: set_addrs_relabel)
    then show "node_at ?h4 b = node_at h2 b"
      using other4 [of b] h3(4) [of b] other2 [of b] by simp
  qed
  have r4: "rep ?h4 (relabel (Suc ?k + length (addrs l)) r) pr"
  proof (rule rep_cong [OF h3(2)])
    fix b assume "b \<in> set (addrs (relabel (Suc ?k + length (addrs l)) r))"
    then have "?k < b" by (simp add: set_addrs_relabel)
    then show "node_at ?h4 b = node_at h3 b" using other4 [of b] by simp
  qed
  have rep4: "rep ?h4 (relabel ?k (Node l a v r)) (Some ?k)"
    using k4 l4 r4 by simp
  have below4: "node_at ?h4 b = node_at h b" if "b < ?k" for b
    using that other4 [of b] h3(4) [of b] other2 [of b] h2(4) [of b] below1 [of b] by simp
  show ?case
    using run rep4 below4 h3(3) by (simp add: length_store)
qed

section \<open>The calls in a well-formed world\<close>

lemma queue_ok_frame:
  "queue_ok w q t \<Longrightarrow> queues w' q = queues w q \<Longrightarrow>
   (\<And>a. a \<in> set (addrs t) \<Longrightarrow> node_at (nodes w') a = node_at (nodes w) a) \<Longrightarrow>
   queue_ok w' q t"
  unfolding queue_ok_def by (auto intro: rep_cong)

lemma world_invD:
  assumes "world_inv w T"
  shows "rep (nodes w) (T i) (pq_root (queues w i))" "distinct (addrs (T i))"
    "pq_size (queues w i) = length (addrs (T i))"
    "i \<noteq> j \<Longrightarrow> set (addrs (T i)) \<inter> set (addrs (T j)) = {}"
    "a \<in> set (addrs (T i)) \<Longrightarrow> a < length (nodes w)"
    "queue_ok w i (T i)"
  using assms rep_less [of "nodes w" "T i" "pq_root (queues w i)" a]
  unfolding world_inv_def queue_ok_def by blast+

lemma world_inv_update:
  assumes inv: "world_inv w T"
    and q: "queue_ok w' i t"
    and others: "\<And>k. k \<noteq> i \<Longrightarrow> queue_ok w' k (T k)"
    and disj: "\<And>k. k \<noteq> i \<Longrightarrow> set (addrs t) \<inter> set (addrs (T k)) = {}"
  shows "world_inv w' (T(i := t))"
  unfolding world_inv_def
proof (intro conjI allI impI)
  fix k show "queue_ok w' k ((T(i := t)) k)"
    using q others by simp
next
  fix k j :: nat assume "k \<noteq> j"
  then show "set (addrs ((T(i := t)) k)) \<inter> set (addrs ((T(i := t)) j)) = {}"
    using disj [of k] disj [of j] world_invD(4) [OF inv, of k j] by auto
qed

lemma push_post:
  assumes inv: "world_inv w T"
  shows "call_post cmp w T (Push i e) (push cmp w i e)"
proof -
  let ?h = "nodes w" and ?k = "length (nodes w)"
  let ?new = "Node Leaf ?k e Leaf"
  let ?h1 = "?h @ [Some \<lparr>val = e, ls = None, rs = None\<rparr>]"
  have below: "node_at ?h1 a = node_at ?h a" if "a < ?k" for a
    using that by (simp add: node_at_append)
  have less: "a < ?k" if "a \<in> set (addrs (T q))" for a q
    using that by (rule world_invD(5) [OF inv])
  have rep1: "rep ?h1 (T i) (pq_root (queues w i))"
    using world_invD(1) [OF inv, of i] by (rule rep_cong) (simp add: below less)
  have new1: "rep ?h1 ?new (Some ?k)"
    by (simp add: node_at_append)
  have d: "distinct (addrs (T i) @ addrs ?new)"
    using world_invD(2) [OF inv, of i] less [of ?k i] by auto
  from merge_node_refines [OF rep1 new1 d, of cmp]
  obtain h2 res where run: "merge_node cmp ?h1 (pq_root (queues w i)) (Some ?k) = Some (h2, res)"
    and len2: "length h2 = Suc ?k"
    and frame2: "\<And>a. a \<notin> set (addrs (T i)) \<union> {?k} \<Longrightarrow> node_at h2 a = node_at ?h1 a"
    and res: "case tmerge cmp (T i) ?new of None \<Rightarrow> res = Inl compare_exception
              | Some t \<Rightarrow> \<exists>m. res = Inr m \<and> rep h2 t m"
    unfolding merge_post_def by auto
  have other2: "node_at h2 a = node_at ?h a" if "a \<in> set (addrs (T q))" "q \<noteq> i" for a q
  proof -
    have "a \<notin> set (addrs (T i))" using world_invD(4) [OF inv, of q i] that by auto
    moreover have "a < ?k" using that(1) by (rule less)
    ultimately show ?thesis using frame2 [of a] below [of a] by simp
  qed
  show ?thesis
  proof (cases "tmerge cmp (T i) ?new")
    case None
    with res have r: "res = Inl compare_exception" by simp
    let ?w' = "w\<lparr>nodes := delete_node h2 ?k\<rparr>"
    have out: "push cmp w i e = Some (?w', Inl compare_exception)"
      using run r by (simp add: push_def new_node_def)
    have "queue_ok ?w' q (T q)" if "q \<noteq> i" for q
    proof (rule queue_ok_frame [OF world_invD(6) [OF inv]])
      fix a assume a: "a \<in> set (addrs (T q))"
      then have "a \<noteq> ?k" using less [of a q] by simp
      then show "node_at (nodes ?w') a = node_at (nodes w) a"
        using other2 [OF a that] by (simp add: node_at_delete)
    qed simp
    with out None show ?thesis
      unfolding call_post_def by simp
  next
    case (Some t)
    with res obtain m where m: "res = Inr m" "rep h2 t m" by auto
    let ?w' = "w\<lparr>nodes := h2,
       queues := (queues w)(i := \<lparr>pq_root = m, pq_size = pq_size (queues w i) + 1\<rparr>)\<rparr>"
    have out: "push cmp w i e = Some (?w', Inr ())"
      using run m(1) by (simp add: push_def new_node_def)
    have sett: "set (addrs t) = set (addrs (T i)) \<union> {?k}"
      using set_addrs_tmerge [OF Some] by simp
    have qi: "queue_ok ?w' i t"
      unfolding queue_ok_def
      using m(2) distinct_tmerge [OF Some d] length_addrs_tmerge [OF Some]
        world_invD(3) [OF inv, of i] by simp
    have others: "queue_ok ?w' q (T q)" if "q \<noteq> i" for q
    proof (rule queue_ok_frame [OF world_invD(6) [OF inv]])
      show "queues ?w' q = queues w q" using that by simp
    next
      fix a assume a: "a \<in> set (addrs (T q))"
      show "node_at (nodes ?w') a = node_at (nodes w) a"
        using other2 [OF a that] by simp
    qed
    have disj: "set (addrs t) \<inter> set (addrs (T q)) = {}" if "q \<noteq> i" for q
      using world_invD(4) [OF inv, of i q] that less [of ?k q] unfolding sett by auto
    have "world_inv ?w' (T(i := t))"
      using inv qi others disj by (rule world_inv_update)
    with out Some others show ?thesis
      unfolding call_post_def by simp
  qed
qed

lemma pop_post:
  assumes inv: "world_inv w T"
  shows "call_post cmp w T (Pop i) (pop cmp w i)"
proof (cases "T i")
  case Leaf
  then have "pq_size (queues w i) = 0"
    using world_invD(3) [OF inv, of i] by simp
  then have "pop cmp w i = Some (w, Inl container_is_empty)"
    by (simp add: pop_def)
  with Leaf show ?thesis
    unfolding call_post_def using world_invD(6) [OF inv] by simp
next
  case (Node l a v r)
  let ?h = "nodes w"
  from world_invD(1) [OF inv, of i] Node obtain n where n: "pq_root (queues w i) = Some a"
    "node_at ?h a = Some n" "rep ?h l (ls n)" "rep ?h r (rs n)"
    by (auto split: option.splits)
  have size: "pq_size (queues w i) \<noteq> 0"
    using world_invD(3) [OF inv, of i] Node by simp
  have d: "distinct (addrs l @ addrs r)" "a \<notin> set (addrs l) \<union> set (addrs r)"
    using world_invD(2) [OF inv, of i] Node by auto
  from merge_node_refines [OF n(3,4) d(1), of cmp]
  obtain h1 res where run: "merge_node cmp ?h (ls n) (rs n) = Some (h1, res)"
    and frame1: "\<And>b. b \<notin> set (addrs l) \<union> set (addrs r) \<Longrightarrow> node_at h1 b = node_at ?h b"
    and res: "case tmerge cmp l r of None \<Rightarrow> res = Inl compare_exception
              | Some t \<Rightarrow> \<exists>m. res = Inr m \<and> rep h1 t m"
    unfolding merge_post_def by auto
  have other1: "node_at h1 b = node_at ?h b \<and> b \<noteq> a"
    if "b \<in> set (addrs (T q))" "q \<noteq> i" for b q
    using world_invD(4) [OF inv, of q i] that Node frame1 [of b] by auto
  show ?thesis
  proof (cases "tmerge cmp l r")
    case None
    with res have r: "res = Inl compare_exception" by simp
    let ?w' = "w\<lparr>nodes := h1\<rparr>"
    have out: "pop cmp w i = Some (?w', Inl compare_exception)"
      using run r n size by (simp add: pop_def)
    have "queue_ok ?w' q (T q)" if "q \<noteq> i" for q
      by (rule queue_ok_frame [OF world_invD(6) [OF inv]]) (simp_all add: other1 that)
    with out None Node show ?thesis
      unfolding call_post_def by simp
  next
    case (Some t)
    with res obtain m where m: "res = Inr m" "rep h1 t m" by auto
    let ?w' = "w\<lparr>nodes := delete_node h1 a,
       queues := (queues w)(i := \<lparr>pq_root = m, pq_size = pq_size (queues w i) - 1\<rparr>)\<rparr>"
    have out: "pop cmp w i = Some (?w', Inr ())"
      using run m(1) n size by (simp add: pop_def)
    have sett: "set (addrs t) = set (addrs l) \<union> set (addrs r)"
      using Some by (rule set_addrs_tmerge)
    have "rep (delete_node h1 a) t m"
      using m(2) by (rule rep_cong) (use d(2) sett in \<open>auto simp: node_at_delete\<close>)
    then have qi: "queue_ok ?w' i t"
      unfolding queue_ok_def
      using distinct_tmerge [OF Some d(1)] length_addrs_tmerge [OF Some]
        world_invD(3) [OF inv, of i] Node by simp
    have others: "queue_ok ?w' q (T q)" if "q \<noteq> i" for q
    proof (rule queue_ok_frame [OF world_invD(6) [OF inv]])
      show "queues ?w' q = queues w q" using that by simp
    next
      fix b assume "b \<in> set (addrs (T q))"
      then show "node_at (nodes ?w') b = node_at (nodes w) b"
        using other1 [OF _ that, of b] by (simp add: node_at_delete)
    qed
    have disj: "set (addrs t) \<inter> set (addrs (T q)) = {}" if "q \<noteq> i" for q
      using world_invD(4) [OF inv, of i q] that Node unfolding sett by auto
    have "world_inv ?w' (T(i := t))"
      using inv qi others disj by (rule world_inv_update)
    with out Some Node others show ?thesis
      unfolding call_post_def by simp
  qed
qed

lemma merge_call_post:
  assumes inv: "world_inv w T"
  shows "call_post cmp w T (Merge i j) (merge cmp w i j)"
proof (cases "i = j")
  case True
  then show ?thesis
    unfolding call_post_def using inv world_invD(6) [OF inv] by (simp add: merge_def)
next
  case ne: False
  let ?h = "nodes w"
  have keep: "\<forall>k. k \<notin> set (touches (Merge i j)) \<longrightarrow> queues w k = queues w k \<and> queue_ok w k (T k)"
    using world_invD(6) [OF inv] by simp
  show ?thesis
  proof (cases "T i = Leaf \<or> T j = Leaf")
    case True
    then have "pq_root (queues w i) = None \<or> pq_root (queues w j) = None"
      using world_invD(1) [OF inv, of i] world_invD(1) [OF inv, of j] by auto
    then have "merge cmp w i j = Some (w, Inl null_dereference)"
      using ne by (auto simp: merge_def split: option.splits)
    with True ne keep show ?thesis
      unfolding call_post_def by simp
  next
    case False
    then obtain l1 a1 v1 r1 l2 a2 v2 r2 where Ti: "T i = Node l1 a1 v1 r1"
      and Tj: "T j = Node l2 a2 v2 r2"
      by (cases "T i"; cases "T j") auto
    have repi: "rep ?h (T i) (Some a1)" and ri: "pq_root (queues w i) = Some a1"
      using world_invD(1) [OF inv, of i] Ti by auto
    have repj: "rep ?h (T j) (Some a2)" and rj: "pq_root (queues w j) = Some a2"
      using world_invD(1) [OF inv, of j] Tj by auto
    from repi Ti obtain n1 where n1: "node_at ?h a1 = Some n1" "val n1 = v1"
      by (auto split: option.splits)
    from repj Tj obtain n2 where n2: "node_at ?h a2 = Some n2" "val n2 = v2"
      by (auto split: option.splits)
    have d: "distinct (addrs (T i) @ addrs (T j))"
      using world_invD(2) [OF inv, of i] world_invD(2) [OF inv, of j]
        world_invD(4) [OF inv ne] by simp
    from merge_node_refines [OF repi repj d, of cmp]
    obtain h1 res where run: "merge_node cmp ?h (Some a1) (Some a2) = Some (h1, res)"
      and frame1: "\<And>b. b \<notin> set (addrs (T i)) \<union> set (addrs (T j)) \<Longrightarrow> node_at h1 b = node_at ?h b"
      and res: "case tmerge cmp (T i) (T j) of None \<Rightarrow> res = Inl compare_exception
                | Some t \<Rightarrow> \<exists>m. res = Inr m \<and> rep h1 t m"
      unfolding merge_post_def by auto
    have other1: "node_at h1 b = node_at ?h b"
      if "b \<in> set (addrs (T q))" "q \<noteq> i" "q \<noteq> j" for b q
      using world_invD(4) [OF inv, of q i] world_invD(4) [OF inv, of q j] that frame1 [of b]
      by auto
    show ?thesis
    proof (cases "tmerge cmp (T i) (T j)")
      case None
      with res have r: "res = Inl compare_exception" by simp
      have "\<exists>w'. merge cmp w i j = Some (w', Inl compare_exception) \<and> queues w' = queues w
             \<and> (nodes w' = ?h \<or> nodes w' = h1)"
        using run r ne ri rj n1 n2 by (cases "cmp v1 v2") (auto simp: merge_def)
      then obtain w' where out: "merge cmp w i j = Some (w', Inl compare_exception)"
        and q': "queues w' = queues w" and h': "nodes w' = ?h \<or> nodes w' = h1"
        by blast
      have "queue_ok w' q (T q)" if "q \<noteq> i" "q \<noteq> j" for q
        by (rule queue_ok_frame [OF world_invD(6) [OF inv]])
           (use q' h' other1 that in auto)
      with out None False ne q' show ?thesis
        unfolding call_post_def by simp
    next
      case (Some t)
      with res obtain m where m: "res = Inr m" "rep h1 t m" by auto
      from Some Ti Tj obtain b where b: "cmp v1 v2 = Some b"
        by (cases "cmp v1 v2") auto
      let ?w' = "w\<lparr>nodes := h1,
         queues := (queues w)
           (i := \<lparr>pq_root = m, pq_size = pq_size (queues w i) + pq_size (queues w j)\<rparr>,
            j := \<lparr>pq_root = None, pq_size = 0\<rparr>)\<rparr>"
      have out: "merge cmp w i j = Some (?w', Inr ())"
        using run m(1) ne ri rj n1 n2 b by (simp add: merge_def)
      have sett: "set (addrs t) = set (addrs (T i)) \<union> set (addrs (T j))"
        using Some by (rule set_addrs_tmerge)
      have qi: "queue_ok ?w' i t"
        unfolding queue_ok_def
        using m(2) distinct_tmerge [OF Some d] length_addrs_tmerge [OF Some] ne
          world_invD(3) [OF inv, of i] world_invD(3) [OF inv, of j] by simp
      have qj: "queue_ok ?w' j Leaf"
        unfolding queue_ok_def by simp
      have others: "queue_ok ?w' q (T q)" if "q \<noteq> i" "q \<noteq> j" for q
        by (rule queue_ok_frame [OF world_invD(6) [OF inv]])
           (use that other1 in auto)
      have "world_inv ?w' (T(i := t, j := Leaf))"
        unfolding world_inv_def
      proof (intro conjI allI impI)
        fix k show "queue_ok ?w' k ((T(i := t, j := Leaf)) k)"
          using qi qj others [of k] ne by (cases "k = i"; cases "k = j") simp_all
      next
        fix k q :: nat assume "k \<noteq> q"
        then show "set (addrs ((T(i := t, j := Leaf)) k))
                     \<inter> set (addrs ((T(i := t, j := Leaf)) q)) = {}"
          using world_invD(4) [OF inv, of k q] world_invD(4) [OF inv, of i q]
            world_invD(4) [OF inv, of j q] world_invD(4) [OF inv, of k i]
            world_invD(4) [OF inv, of k j] sett by auto
      qed
      with out Some False ne others show ?thesis
        unfolding call_post_def by simp
    qed
  qed
qed

text \<open>Cloning the tree of queue \<open>j\<close> in a store that agrees with the world on the other queues.\<close>

lemma clone_into:
  assumes inv: "world_inv w T"
    and len: "length h1 = length (nodes w)"
    and same: "\<And>q a. q \<noteq> i \<Longrightarrow> a \<in> set (addrs (T q)) \<Longrightarrow> node_at h1 a = node_at (nodes w) a"
    and src: "rep h1 (T j) (pq_root (queues w j))"
  shows "\<exists>h2 p. clonenode h1 (pq_root (queues w j)) = Some (Inr (h2, p)) \<and>
           world_inv (w\<lparr>nodes := h2,
               queues := (queues w)(i := \<lparr>pq_root = p, pq_size = pq_size (queues w j)\<rparr>)\<rparr>)
             (T(i := relabel (length (nodes w)) (T j)))"
proof -
  let ?k = "length (nodes w)"
  from clonenode_refines [OF src] len
  obtain h2 p where run: "clonenode h1 (pq_root (queues w j)) = Some (Inr (h2, p))"
    and rep2: "rep h2 (relabel ?k (T j)) p"
    and below: "\<And>a. a < ?k \<Longrightarrow> node_at h2 a = node_at h1 a"
    by auto
  let ?w' = "w\<lparr>nodes := h2,
    queues := (queues w)(i := \<lparr>pq_root = p, pq_size = pq_size (queues w j)\<rparr>)\<rparr>"
  let ?t = "relabel ?k (T j)"
  have qi: "queue_ok ?w' i ?t"
    unfolding queue_ok_def
    using rep2 world_invD(3) [OF inv, of j]
    by (simp add: addrs_relabel)
  have others: "queue_ok ?w' q (T q)" if "q \<noteq> i" for q
  proof (rule queue_ok_frame [OF world_invD(6) [OF inv]])
    show "queues ?w' q = queues w q" using that by simp
  next
    fix a assume a: "a \<in> set (addrs (T q))"
    then have "a < ?k" by (rule world_invD(5) [OF inv])
    then show "node_at (nodes ?w') a = node_at (nodes w) a"
      using below [of a] same [OF that a] by simp
  qed
  have disj: "set (addrs ?t) \<inter> set (addrs (T q)) = {}" for q
  proof -
    have "a \<notin> set (addrs ?t)" if "a \<in> set (addrs (T q))" for a
      using world_invD(5) [OF inv that] by (simp add: set_addrs_relabel)
    then show ?thesis by auto
  qed
  have "world_inv ?w' (T(i := ?t))"
    using inv qi others disj by (rule world_inv_update)
  with run show ?thesis by blast
qed

lemma copy_post:
  assumes inv: "world_inv w T"
  shows "call_post cmp w T (Copy i j) (copy_construct w i j)"
proof -
  from clone_into [OF inv refl _ world_invD(1) [OF inv, of j], of i]
  obtain h2 p where run: "clonenode (nodes w) (pq_root (queues w j)) = Some (Inr (h2, p))"
    and inv': "world_inv (w\<lparr>nodes := h2,
               queues := (queues w)(i := \<lparr>pq_root = p, pq_size = pq_size (queues w j)\<rparr>)\<rparr>)
             (T(i := relabel (length (nodes w)) (T j)))"
    by blast
  let ?w' = "w\<lparr>nodes := h2,
               queues := (queues w)(i := \<lparr>pq_root = p, pq_size = pq_size (queues w j)\<rparr>)\<rparr>"
  have out: "copy_construct w i j = Some (?w', Inr ())"
    using run by (simp add: copy_construct_def)
  have "queues ?w' k = queues w k \<and> queue_ok ?w' k (T k)" if "k \<noteq> i" for k
    using world_invD(6) [OF inv', of k] that by simp
  with out inv' show ?thesis
    unfolding call_post_def by simp
qed

lemma assign_post:
  assumes inv: "world_inv w T"
  shows "call_post cmp w T (Assign i j) (assign w i j)"
proof (cases "i = j")
  case True
  then show ?thesis
    unfolding call_post_def using inv world_invD(6) [OF inv] by (simp add: assign_def)
next
  case ne: False
  from clear_refines [OF world_invD(1,2) [OF inv, of i]]
  obtain h1 where cl: "clear (nodes w) (pq_root (queues w i)) = Some (Inr h1)"
    and len: "length h1 = length (nodes w)"
    and freed: "\<And>a. node_at h1 a = (if a \<in> set (addrs (T i)) then None else node_at (nodes w) a)"
    by blast
  have same: "node_at h1 a = node_at (nodes w) a" if "q \<noteq> i" "a \<in> set (addrs (T q))" for q a
    using world_invD(4) [OF inv, of q i] that freed [of a] by auto
  have src: "rep h1 (T j) (pq_root (queues w j))"
    using world_invD(1) [OF inv, of j] by (rule rep_cong) (use same [of j] ne in auto)
  have "\<exists>h2 p. clonenode h1 (pq_root (queues w j)) = Some (Inr (h2, p)) \<and>
           world_inv (w\<lparr>nodes := h2,
               queues := (queues w)(i := \<lparr>pq_root = p, pq_size = pq_size (queues w j)\<rparr>)\<rparr>)
             (T(i := relabel (length (nodes w)) (T j)))"
  proof (rule clone_into [OF inv len _ src])
    fix q a assume "q \<noteq> i" "a \<in> set (addrs (T q))"
    then show "node_at h1 a = node_at (nodes w) a" by (rule same)
  qed
  then obtain h2 p where run: "clonenode h1 (pq_root (queues w j)) = Some (Inr (h2, p))"
    and inv': "world_inv (w\<lparr>nodes := h2,
               queues := (queues w)(i := \<lparr>pq_root = p, pq_size = pq_size (queues w j)\<rparr>)\<rparr>)
             (T(i := relabel (length (nodes w)) (T j)))"
    by blast
  let ?w' = "w\<lparr>nodes := h2,
               queues := (queues w)(i := \<lparr>pq_root = p, pq_size = pq_size (queues w j)\<rparr>)\<rparr>"
  have out: "assign w i j = Some (?w', Inr ())"
    using cl run ne by (simp add: assign_def)
  have "queues ?w' k = queues w k \<and> queue_ok ?w' k (T k)" if "k \<noteq> i" for k
    using world_invD(6) [OF inv', of k] that by simp
  with out inv' ne show ?thesis
    unfolding call_post_def by simp
qed

lemma step_post: "world_inv w T \<Longrightarrow> call_post cmp w T c (step cmp w c)"
  by (cases c) (simp_all add: push_post pop_post merge_call_post assign_post copy_post)

lemma init_world_inv: "world_inv init_world (\<lambda>_. Leaf)"
  by (simp add: world_inv_def queue_ok_def init_world_def empty_queue_def)

lemma step_inv:
  assumes "world_inv w T" "step cmp w c = Some (w', Inr ())"
  shows "\<exists>T'. tstep cmp (length (nodes w)) T c = Some T' \<and> world_inv w' T'"
  using step_post [OF assms(1), of cmp c] assms(2)
  unfolding call_post_def by (auto split: option.splits)

lemma reachable_inv: "reachable cmp w \<Longrightarrow> \<exists>T. world_inv w T"
proof (induction rule: reachable.induct)
  case reachable_init
  show ?case using init_world_inv by blast
next
  case (reachable_step w c w')
  then show ?case using step_inv by blast
qed

section \<open>The order between a node and its children\<close>

lemma root_val_tmerge:
  "tmerge cmp x y = Some t \<Longrightarrow> root_val t = root_val x \<or> root_val t = root_val y"
  by (cases x; cases y) (auto split: option.splits if_splits)

lemma children_ok_tmerge:
  "asymmetric cmp \<Longrightarrow> children_ok (not_before cmp) x \<Longrightarrow> children_ok (not_before cmp) y \<Longrightarrow>
   tmerge cmp x y = Some t \<Longrightarrow> children_ok (not_before cmp) t"
proof (induction cmp x y arbitrary: t rule: tmerge.induct)
  case (1 cmp y)
  then show ?case by simp
next
  case (2 cmp l a v r)
  then show ?case by auto
next
  case (3 cmp l1 a1 v1 r1 l2 a2 v2 r2)
  let ?x = "Node l1 a1 v1 r1" and ?y = "Node l2 a2 v2 r2"
  from "3.prems"(4) obtain b where b: "cmp v1 v2 = Some b"
    by (cases "cmp v1 v2") auto
  show ?case
  proof (cases b)
    case True
    with "3.prems"(4) b obtain m where m: "tmerge cmp r2 ?x = Some m" "t = Node m a2 v2 l2"
      by auto
    have "cmp v2 v1 = Some False"
      using "3.prems"(1) b True by (simp add: asymmetric_def)
    then have win: "not_before cmp v2 v1" by (simp add: not_before_def)
    have okm: "children_ok (not_before cmp) m"
      using "3.IH"(1) [OF b True "3.prems"(1) _ "3.prems"(2) m(1)] "3.prems"(3) by simp
    have "case root_val m of None \<Rightarrow> True | Some c \<Rightarrow> not_before cmp v2 c"
      using root_val_tmerge [OF m(1)] win "3.prems"(3) by (auto split: option.splits)
    with okm "3.prems"(3) m(2) show ?thesis by simp
  next
    case False
    with "3.prems"(4) b obtain m where m: "tmerge cmp r1 ?y = Some m" "t = Node m a1 v1 l1"
      by auto
    have win: "not_before cmp v1 v2" using b False by (simp add: not_before_def)
    have okm: "children_ok (not_before cmp) m"
      using "3.IH"(2) [OF b False "3.prems"(1) _ "3.prems"(3) m(1)] "3.prems"(2) by simp
    have "case root_val m of None \<Rightarrow> True | Some c \<Rightarrow> not_before cmp v1 c"
      using root_val_tmerge [OF m(1)] win "3.prems"(2) by (auto split: option.splits)
    with okm "3.prems"(2) m(2) show ?thesis by simp
  qed
qed

lemma tstep_order:
  assumes "asymmetric cmp" "\<And>i. children_ok (not_before cmp) (T i)"
    "tstep cmp k T c = Some T'"
  shows "children_ok (not_before cmp) (T' i)"
proof (cases c)
  case (Push q e)
  with assms(3) obtain t where t: "tmerge cmp (T q) (Node Leaf k e Leaf) = Some t" "T' = T(q := t)"
    by auto
  have "children_ok (not_before cmp) t"
    using children_ok_tmerge [OF assms(1) assms(2) _ t(1)] by simp
  with t(2) assms(2) show ?thesis by simp
next
  case (Pop q)
  with assms(3) obtain l a v r t where t: "T q = Node l a v r" "tmerge cmp l r = Some t"
    "T' = T(q := t)"
    by (auto split: tree.splits)
  have "children_ok (not_before cmp) l" "children_ok (not_before cmp) r"
    using assms(2) [of q] t(1) by simp_all
  then have "children_ok (not_before cmp) t"
    using children_ok_tmerge [OF assms(1) _ _ t(2)] by simp
  with t(3) assms(2) show ?thesis by simp
next
  case (Merge q j)
  show ?thesis
  proof (cases "q = j")
    case True
    with Merge assms(2,3) show ?thesis by simp
  next
    case False
    with Merge assms(3) obtain t where t: "tmerge cmp (T q) (T j) = Some t"
      "T' = T(q := t, j := Leaf)"
      by (auto split: if_splits)
    have "children_ok (not_before cmp) t"
      using children_ok_tmerge [OF assms(1) assms(2) assms(2) t(1)] .
    with t(2) assms(2) show ?thesis by simp
  qed
next
  case (Assign q j)
  with assms(2,3) show ?thesis by (auto simp: children_ok_relabel split: if_splits)
next
  case (Copy q j)
  with assms(2,3) show ?thesis by (auto simp: children_ok_relabel)
qed

lemma reachable_order:
  assumes "asymmetric cmp"
  shows "reachable cmp w \<Longrightarrow> \<exists>T. world_inv w T \<and> (\<forall>i. children_ok (not_before cmp) (T i))"
proof (induction rule: reachable.induct)
  case reachable_init
  have "\<forall>i. children_ok (not_before cmp) ((\<lambda>_. Leaf) i)" by simp
  with init_world_inv show ?case by blast
next
  case (reachable_step w c w')
  then obtain T where T: "world_inv w T" "\<And>i. children_ok (not_before cmp) (T i)"
    by blast
  from step_inv [OF T(1) reachable_step.hyps(2)]
  obtain T' where T': "tstep cmp (length (nodes w)) T c = Some T'" "world_inv w' T'"
    by blast
  have "\<forall>i. children_ok (not_before cmp) (T' i)"
    using tstep_order [OF assms T(2) T'(1)] by simp
  with T'(2) show ?case by blast
qed

lemma queue_ok_unique: "queue_ok w i t \<Longrightarrow> queue_ok w i t' \<Longrightarrow> t' = t"
  unfolding queue_ok_def by (blast dest: rep_unique)

lemma top_pq_tree:
  "queue_ok w i t \<Longrightarrow>
   top_pq w i = (case root_val t of None \<Rightarrow> Inl container_is_empty | Some v \<Rightarrow> Inr v)"
  by (cases t) (auto simp: queue_ok_def top_pq_def split: option.splits)

lemma below_root:
  "negatively_transitive cmp \<Longrightarrow> children_ok (not_before cmp) t \<Longrightarrow>
   (case root_val t of None \<Rightarrow> True | Some c \<Rightarrow> cmp v c = Some False) \<Longrightarrow>
   x \<in># vals t \<Longrightarrow> cmp v x = Some False"
proof (induction t arbitrary: v)
  case Leaf
  then show ?case by simp
next
  case (Node l a c r)
  have vc: "cmp v c = Some False" using Node.prems(3) by simp
  have down: "case root_val s of None \<Rightarrow> True | Some c' \<Rightarrow> cmp v c' = Some False"
    if "case root_val s of None \<Rightarrow> True | Some c' \<Rightarrow> not_before cmp c c'" for s
    using that vc Node.prems(1) unfolding negatively_transitive_def not_before_def
    by (auto split: option.splits)
  from Node.prems(4) consider "x = c" | "x \<in># vals l" | "x \<in># vals r" by auto
  then show ?case
  proof cases
    case 1
    with vc show ?thesis by simp
  next
    case 2
    show ?thesis
      by (rule Node.IH(1) [OF Node.prems(1) _ down 2]) (use Node.prems(2) in simp_all)
  next
    case 3
    show ?thesis
      by (rule Node.IH(2) [OF Node.prems(1) _ down 3]) (use Node.prems(2) in simp_all)
  qed
qed

lemma asymmetric_throwing_less: "asymmetric throwing_less"
  by (auto simp: asymmetric_def throwing_less_def split: if_splits)

lemma negatively_transitive_throwing_less: "negatively_transitive throwing_less"
  by (auto simp: negatively_transitive_def throwing_less_def split: if_splits)

lemma w_three_reachable_less: "reachable less_int w_three"
proof -
  let ?w1 = "\<lparr>nodes = [Some \<lparr>val = 10::int, ls = None, rs = None\<rparr>],
      queues = (\<lambda>_. empty_queue)(0 := \<lparr>pq_root = Some 0, pq_size = 1\<rparr>)\<rparr>"
  let ?w2 = "\<lparr>nodes = [Some \<lparr>val = 10::int, ls = Some 1, rs = None\<rparr>,
                       Some \<lparr>val = 4, ls = None, rs = None\<rparr>],
      queues = (\<lambda>_. empty_queue)(0 := \<lparr>pq_root = Some 0, pq_size = 2\<rparr>)\<rparr>"
  have 1: "step less_int init_world (Push 0 10) = Some (?w1, Inr ())"
    by (simp add: eval_simps merge_node.simps)
  have 2: "step less_int ?w1 (Push 0 4) = Some (?w2, Inr ())"
    by (simp add: eval_simps merge_node.simps)
  have 3: "step less_int ?w2 (Push 0 3) = Some (w_three, Inr ())"
    by (simp add: eval_simps merge_node.simps w_three_def)
  show ?thesis
    using reachable_init [of less_int] 1 2 3 by (blast intro: reachable_step)
qed

lemma w_three_tree: "queue_ok w_three 0 t_three"
  by (simp add: queue_ok_def w_three_def t_three_def node_at_def)

section \<open>More examples\<close>

lemma w_scenario_reachable: "reachable less_int w_scenario"
proof -
  let ?q = "\<lambda>a n. (\<lambda>_. empty_queue)(0 := \<lparr>pq_root = Some a, pq_size = n\<rparr>)"
  let ?w1 = "\<lparr>nodes = [Some \<lparr>val = 5::int, ls = None, rs = None\<rparr>], queues = ?q 0 1\<rparr>"
  let ?w2 = "\<lparr>nodes = [Some \<lparr>val = 5::int, ls = Some 1, rs = None\<rparr>,
                       Some \<lparr>val = 3, ls = None, rs = None\<rparr>], queues = ?q 0 2\<rparr>"
  let ?w3 = "\<lparr>nodes = [Some \<lparr>val = 5::int, ls = Some 1, rs = None\<rparr>,
                       Some \<lparr>val = 3, ls = None, rs = None\<rparr>,
                       Some \<lparr>val = 8, ls = Some 0, rs = None\<rparr>], queues = ?q 2 3\<rparr>"
  let ?w4 = "\<lparr>nodes = [Some \<lparr>val = 5::int, ls = Some 1, rs = None\<rparr>,
                       Some \<lparr>val = 3, ls = None, rs = None\<rparr>,
                       Some \<lparr>val = 8, ls = Some 3, rs = Some 0\<rparr>,
                       Some \<lparr>val = 1, ls = None, rs = None\<rparr>], queues = ?q 2 4\<rparr>"
  let ?w5 = "\<lparr>nodes = [Some \<lparr>val = 5::int, ls = Some 3, rs = Some 1\<rparr>,
                       Some \<lparr>val = 3, ls = None, rs = None\<rparr>,
                       None,
                       Some \<lparr>val = 1, ls = None, rs = None\<rparr>], queues = ?q 0 3\<rparr>"
  let ?w6 = "\<lparr>nodes = [Some \<lparr>val = 5::int, ls = Some 3, rs = Some 1\<rparr>,
                       Some \<lparr>val = 3, ls = None, rs = None\<rparr>,
                       None,
                       Some \<lparr>val = 1, ls = None, rs = None\<rparr>,
                       Some \<lparr>val = 10, ls = None, rs = None\<rparr>],
             queues = (?q 0 3)(1 := \<lparr>pq_root = Some 4, pq_size = 1\<rparr>)\<rparr>"
  have 1: "step less_int init_world (Push 0 5) = Some (?w1, Inr ())"
    by (simp add: eval_simps merge_node.simps)
  have 2: "step less_int ?w1 (Push 0 3) = Some (?w2, Inr ())"
    by (simp add: eval_simps merge_node.simps)
  have 3: "step less_int ?w2 (Push 0 8) = Some (?w3, Inr ())"
    by (simp add: eval_simps merge_node.simps)
  have 4: "step less_int ?w3 (Push 0 1) = Some (?w4, Inr ())"
    by (simp add: eval_simps merge_node.simps)
  have 5: "step less_int ?w4 (Pop 0) = Some (?w5, Inr ())"
    by (simp add: eval_simps merge_node.simps)
  have 6: "step less_int ?w5 (Push 1 10) = Some (?w6, Inr ())"
    by (simp add: eval_simps merge_node.simps)
  have 7: "step less_int ?w6 (Push 1 20) = Some (w_scenario, Inr ())"
    by (simp add: eval_simps merge_node.simps w_scenario_def)
  have "reachable less_int ?w4"
    using reachable_init [of less_int] 1 2 3 4 by (blast intro: reachable_step)
  then show ?thesis
    using 5 6 7 by (blast intro: reachable_step)
qed

lemma w_three_inv: "world_inv w_three T_three"
  by (auto simp: world_inv_def queue_ok_def T_three_def t_three_def w_three_def node_at_def
      empty_queue_def)

section \<open>Calls leave the other queues alone\<close>

lemma step_frame:
  assumes "world_inv w T" "step cmp w c = Some (w', r)" "k \<notin> set (touches c)"
  shows "queues w' k = queues w k \<and> queue_ok w' k (T k) \<and> top_pq w' k = top_pq w k"
proof -
  from step_post [OF assms(1), of cmp c] assms(2,3)
  have q: "queues w' k = queues w k" "queue_ok w' k (T k)"
    unfolding call_post_def by auto
  have "top_pq w' k = top_pq w k"
    using top_pq_tree [OF q(2)] top_pq_tree [OF world_invD(6) [OF assms(1), of k]] by simp
  with q show ?thesis by simp
qed

lemma step_returns: "world_inv w T \<Longrightarrow> \<exists>w' r. step cmp w c = Some (w', r)"
  using step_post [of w T cmp c] unfolding call_post_def by blast

lemma tstep_untouched:
  "tstep cmp n T c = Some T' \<Longrightarrow> k \<notin> set (touches c) \<Longrightarrow> T' k = T k"
  by (cases c) (auto split: tree.splits if_splits)

lemma run_frame:
  "world_inv w T \<Longrightarrow> run cmp w cs = Some (w', r) \<Longrightarrow> \<forall>c \<in> set cs. k \<notin> set (touches c) \<Longrightarrow>
   queues w' k = queues w k \<and> queue_ok w' k (T k) \<and> top_pq w' k = top_pq w k"
proof (induction cs arbitrary: w T)
  case Nil
  then show ?case using world_invD(6) [of w T k] by simp
next
  case (Cons c cs)
  from step_returns [OF Cons.prems(1), of cmp c]
  obtain w1 r1 where s: "step cmp w c = Some (w1, r1)" by blast
  have k: "k \<notin> set (touches c)" using Cons.prems(3) by simp
  note f = step_frame [OF Cons.prems(1) s k]
  show ?case
  proof (cases r1)
    case (Inl e)
    with s Cons.prems(2) have "w' = w1" by simp
    with f show ?thesis by simp
  next
    case (Inr u)
    with s Cons.prems(2) have r: "run cmp w1 cs = Some (w', r)" by simp
    have "step cmp w c = Some (w1, Inr ())" using s Inr by simp
    from step_inv [OF Cons.prems(1) this]
    obtain T1 where T1: "tstep cmp (length (nodes w)) T c = Some T1" "world_inv w1 T1"
      by blast
    have "T1 k = T k" using T1(1) k by (rule tstep_untouched)
    with Cons.IH [OF T1(2) r] Cons.prems(3) f show ?thesis by simp
  qed
qed

lemma copied_after:
  assumes inv: "world_inv w T" and ne: "i \<noteq> j" and c: "c = Assign i j \<or> c = Copy i j"
  shows "\<exists>w'. step cmp w c = Some (w', Inr ()) \<and> copied cmp' w T i j w'"
proof -
  let ?t = "relabel (length (nodes w)) (T j)"
  have ts: "tstep cmp (length (nodes w)) T c = Some (T(i := ?t))"
    using c ne by auto
  from step_post [OF inv, of cmp c] ts
  obtain w' where out: "step cmp w c = Some (w', Inr ())" and inv': "world_inv w' (T(i := ?t))"
    unfolding call_post_def by auto
  have qj: "queue_ok w' j (T j)" and qi: "queue_ok w' i ?t"
    using world_invD(6) [OF inv', of j] world_invD(6) [OF inv', of i] ne by simp_all
  have fields: "queues w' j = queues w j"
    using out c ne
    by (auto simp: assign_def copy_construct_def split: Option.bind_splits sum.splits)
  have size: "size_pq w' i = size_pq w' j"
    using qi qj by (simp add: size_pq_def queue_ok_def length_addrs_relabel)
  have disj: "set (addrs ?t) \<inter> set (addrs (T j)) = {}"
    using world_invD(4) [OF inv', of i j] ne by simp
  show ?thesis
    unfolding copied_def
    using out inv' fields size disj run_frame [OF inv'] vals_relabel [of "length (nodes w)" "T j"]
    by blast
qed

section \<open>The nodes a root leads to\<close>

lemma depth_le_nodes: "depth t \<le> length (addrs t)"
  by (induction t) auto

lemma reach_rep: "rep h t p \<Longrightarrow> depth t \<le> k \<Longrightarrow> reach k h p = addrs t"
proof (induction t arbitrary: k p)
  case Leaf
  then show ?case by (cases k) auto
next
  case (Node l a v r)
  from Node.prems(2) obtain k' where k: "k = Suc k'" "depth l \<le> k'" "depth r \<le> k'"
    by (cases k) auto
  from Node.prems(1) obtain n where n: "p = Some a" "node_at h a = Some n"
    "rep h l (ls n)" "rep h r (rs n)"
    by (auto split: option.splits)
  show ?case
    using Node.IH(1) [OF n(3) k(2)] Node.IH(2) [OF n(4) k(3)] n(1,2) k(1) by simp
qed

lemma nodes_le_store:
  assumes "rep h t p" "distinct (addrs t)"
  shows "length (addrs t) \<le> length h"
proof -
  have "set (addrs t) \<subseteq> {..<length h}"
    using rep_less [OF assms(1)] by auto
  then have "card (set (addrs t)) \<le> card {..<length h}"
    by (intro card_mono) auto
  with assms(2) show ?thesis by (simp add: distinct_card)
qed

lemma live_nodes_queue_ok: "queue_ok w i t \<Longrightarrow> live_nodes w i = pq_size (queues w i)"
proof -
  assume ok: "queue_ok w i t"
  then have r: "rep (nodes w) t (pq_root (queues w i))" and d: "distinct (addrs t)"
    and s: "pq_size (queues w i) = length (addrs t)"
    by (simp_all add: queue_ok_def)
  have "depth t \<le> length (nodes w)"
    using depth_le_nodes [of t] nodes_le_store [OF r d] by simp
  with r have "reach (length (nodes w)) (nodes w) (pq_root (queues w i)) = addrs t"
    by (rule reach_rep)
  with d s show ?thesis by (simp add: live_nodes_def distinct_remdups_id)
qed

section \<open>Exceptions of the ordering predicate\<close>

text \<open>
  C1. The claim is that a call \<open>A.merge(B)\<close> in which the predicate throws leaves both
  queues as they were, no child link changed. The call on the roots that \<open>merge\<close> makes
  first protects against a throw at the first comparison only. In \<open>w_four\<close>, reached by
  four pushes, queue 0 holds 10 with the children 3 and 4, queue 1 holds 7, and the
  predicate throws on (4, 7): \<open>merge_node\<close> has already overwritten \<open>rs\<close> of the root
  when that comparison is made, so after the exception both children of the root are the
  node of 3 and the node of 4 is no longer linked.
\<close>

theorem merge_exception_relinks:
  "reachable throwing_less w_four
   \<and> merge throwing_less w_four 0 1 = Some (w_four_failed, Inl compare_exception)
   \<and> node_at (nodes w_four) 0 = Some \<lparr>val = 10, ls = Some 2, rs = Some 1\<rparr>
   \<and> node_at (nodes w_four_failed) 0 = Some \<lparr>val = 10, ls = Some 2, rs = Some 2\<rparr>"
proof -
  have "merge throwing_less w_four 0 1 = Some (w_four_failed, Inl compare_exception)"
    by (simp add: eval_simps merge_node.simps w_four_def w_four_failed_def)
  moreover have "node_at (nodes w_four) 0 = Some \<lparr>val = 10, ls = Some 2, rs = Some 1\<rparr>"
    by (simp add: node_at_def w_four_def)
  moreover have "node_at (nodes w_four_failed) 0 = Some \<lparr>val = 10, ls = Some 2, rs = Some 2\<rparr>"
    by (simp add: node_at_def w_four_failed_def)
  ultimately show ?thesis using w_four_reachable by simp
qed

text \<open>
  C2. When the predicate throws during \<open>push\<close>, the queue has the size it had, and
  \<open>top\<close> answers as before (the same element, or the same failure on an empty queue).
  This holds in every world: \<open>root_\<close> and \<open>size_\<close> are assigned only after \<open>merge\<close> has
  returned, \<open>merge\<close> never writes a value, and the node deleted by the handler is the new
  one.
\<close>

theorem push_exception_keeps_size_and_top:
  assumes "push cmp w i e = Some (w', Inl compare_exception)"
  shows "size_pq w' i = size_pq w i \<and> top_pq w' i = top_pq w i"
proof -
  let ?k = "length (nodes w)"
  let ?h1 = "nodes w @ [Some \<lparr>val = e, ls = None, rs = None\<rparr>]"
  from assms obtain h2 where
    run: "merge_node cmp ?h1 (pq_root (queues w i)) (Some ?k) = Some (h2, Inl compare_exception)"
    and w': "w' = w\<lparr>nodes := delete_node h2 ?k\<rparr>"
    by (auto simp: push_def new_node_def split: Option.bind_splits sum.splits)
  have eq: "map (map_option val) h2 = map (map_option val) ?h1"
    using run by (rule merge_node_vals)
  have "map_option val (node_at (delete_node h2 ?k) a) = map_option val (node_at (nodes w) a)" for a
  proof (cases "a = ?k")
    case True
    then show ?thesis by (simp add: node_at_delete node_at_length)
  next
    case False
    then show ?thesis
      using vals_node_at [OF eq, of a] by (simp add: node_at_delete node_at_append)
  qed
  then have "top_pq w' i = top_pq w i"
    unfolding top_pq_vals w' by (simp cong: option.case_cong)
  then show ?thesis by (simp add: w' size_pq_def)
qed

theorem push_exception_keeps_size_and_top_witness:
  "push throwing_less w_three 0 7 = Some (w_three_failed, Inl compare_exception)
   \<and> size_pq w_three 0 = 3 \<and> top_pq w_three 0 = Inr 10
   \<and> size_pq w_three_failed 0 = 3 \<and> top_pq w_three_failed 0 = Inr 10"
proof -
  have run: "push throwing_less w_three 0 7 = Some (w_three_failed, Inl compare_exception)"
    by (simp add: eval_simps merge_node.simps w_three_def w_three_failed_def)
  have before: "size_pq w_three 0 = 3" "top_pq w_three 0 = Inr 10"
    by (simp_all add: eval_simps w_three_def)
  from push_exception_keeps_size_and_top [OF run] run before show ?thesis by simp
qed

text \<open>
  C3. The claim is that merging with an empty queue calls no predicate and reaches no
  undefined branch. The private \<open>merge\<close> does return the other pointer when one is null,
  but the public \<open>merge\<close> first evaluates \<open>Compare()(root_->val, other.root_->val)\<close>: with
  queue 1 empty, both \<open>merge\<close> of queue 1 into queue 0 and of queue 0 into queue 1
  dereference a null pointer.
\<close>

theorem merge_with_empty_dereferences_null:
  "reachable throwing_less w_three
   \<and> empty_pq w_three 1 \<and> \<not> empty_pq w_three 0
   \<and> merge throwing_less w_three 0 1 = Some (w_three, Inl null_dereference)
   \<and> merge throwing_less w_three 1 0 = Some (w_three, Inl null_dereference)
   \<and> merge_node throwing_less (nodes w_three) (Some 0) None = Some (nodes w_three, Inr (Some 0))
   \<and> merge_node throwing_less (nodes w_three) None (Some 0) = Some (nodes w_three, Inr (Some 0))"
proof -
  have "empty_pq w_three 1" "\<not> empty_pq w_three 0"
    by (simp_all add: eval_simps w_three_def)
  moreover have "merge throwing_less w_three 0 1 = Some (w_three, Inl null_dereference)"
    "merge throwing_less w_three 1 0 = Some (w_three, Inl null_dereference)"
    by (simp_all add: eval_simps w_three_def)
  moreover have "merge_node throwing_less (nodes w_three) (Some 0) None = Some (nodes w_three, Inr (Some 0))"
    "merge_node throwing_less (nodes w_three) None (Some 0) = Some (nodes w_three, Inr (Some 0))"
    by (simp_all add: merge_node.simps)
  ultimately show ?thesis using w_three_reachable by simp
qed

section \<open>The empty queue\<close>

text \<open>
  C7. \<open>top\<close> raises \<open>container_is_empty\<close> exactly when \<open>size_\<close> is 0, and so does \<open>pop\<close>,
  which then leaves the world as it was. (\<open>top\<close> is a function of the world that returns
  no world and takes no predicate. An exception of the predicate is an error of its own
  here, never \<open>container_is_empty\<close>.)
\<close>

theorem empty_container_checks:
  "(top_pq w i = Inl container_is_empty \<longleftrightarrow> pq_size (queues w i) = 0)
   \<and> (pop cmp w i = Some (w', Inl container_is_empty) \<longleftrightarrow> pq_size (queues w i) = 0 \<and> w' = w)"
proof -
  have "top_pq w i = Inl container_is_empty \<longleftrightarrow> pq_size (queues w i) = 0"
    by (simp add: top_pq_def split: option.splits)
  moreover have "pop cmp w i = Some (w', Inl container_is_empty) \<longleftrightarrow> pq_size (queues w i) = 0 \<and> w' = w"
    by (auto simp: pop_def split: option.splits Option.bind_splits sum.splits dest: merge_node_error)
  ultimately show ?thesis by simp
qed

section \<open>The count and the nodes\<close>

text \<open>
  C8. The claim is that \<open>size_\<close> is the number of nodes the root leads to, also after a
  call that raised. After the failing \<open>push(7)\<close> on \<open>w_three\<close> the count is 3 and the
  root leads to 2 nodes: the links were changed before the predicate threw.
\<close>

theorem size_differs_after_exception:
  "reachable throwing_less w_three
   \<and> size_pq w_three 0 = 3 \<and> live_nodes w_three 0 = 3
   \<and> push throwing_less w_three 0 7 = Some (w_three_failed, Inl compare_exception)
   \<and> size_pq w_three_failed 0 = 3 \<and> live_nodes w_three_failed 0 = 2"
proof -
  have "size_pq w_three 0 = 3" "live_nodes w_three 0 = 3"
    by (simp_all add: live_nodes_def eval_simps w_three_def)
  moreover have "push throwing_less w_three 0 7 = Some (w_three_failed, Inl compare_exception)"
    by (simp add: eval_simps merge_node.simps w_three_def w_three_failed_def)
  moreover have "size_pq w_three_failed 0 = 3" "live_nodes w_three_failed 0 = 2"
    by (simp_all add: live_nodes_def eval_simps w_three_failed_def)
  ultimately show ?thesis using w_three_reachable by simp
qed

section \<open>The heap order\<close>

text \<open>
  C5, as stated: in every queue reached by calls that return normally, the predicate
  applied to (child's value, node's value) is false. With \<open>std::less<int>\<close>, after
  \<open>push(10)\<close>, \<open>push(4)\<close>, \<open>push(3)\<close> the root 10 has the child 3, and the predicate
  applied to (3, 10) is true: the arguments are in the wrong order.
\<close>

theorem stated_order_counterexample:
  "reachable less_int w_three \<and> queue_ok w_three 0 t_three
   \<and> \<not> children_ok (child_not_before less_int) t_three"
proof -
  have "\<not> children_ok (child_not_before less_int) t_three"
    by (simp add: t_three_def child_not_before_def less_int_def)
  with w_three_reachable_less w_three_tree show ?thesis by simp
qed

text \<open>
  C5, amended: for an asymmetric predicate, in every queue reached by calls that return
  normally, the predicate applied to (node's value, child's value) is false, for every
  node and each of its children. The queue holds exactly one tree.
\<close>

theorem heap_order_reachable:
  assumes "reachable cmp w" "asymmetric cmp"
  shows "\<exists>t. queue_ok w i t \<and> children_ok (not_before cmp) t \<and> (\<forall>t'. queue_ok w i t' \<longrightarrow> t' = t)"
proof -
  from reachable_order [OF assms(2,1)]
  obtain T where T: "world_inv w T" "\<And>i. children_ok (not_before cmp) (T i)"
    by blast
  have "queue_ok w i (T i)" using T(1) by (rule world_invD(6))
  with T(2) [of i] show ?thesis by (blast dest: queue_ok_unique)
qed

theorem heap_order_reachable_witness:
  "reachable throwing_less w_three \<and> asymmetric throwing_less
   \<and> queue_ok w_three 0 t_three \<and> children_ok (not_before throwing_less) t_three"
proof -
  from heap_order_reachable [OF w_three_reachable asymmetric_throwing_less, of 0]
  obtain t where t: "queue_ok w_three 0 t" "children_ok (not_before throwing_less) t"
    "\<forall>t'. queue_ok w_three 0 t' \<longrightarrow> t' = t"
    by blast
  from t(3) w_three_tree have "t_three = t" by blast
  with t(2) w_three_reachable asymmetric_throwing_less w_three_tree show ?thesis by simp
qed

text \<open>
  C6. For a predicate that is asymmetric and whose "not before" is transitive (a strict
  weak ordering is both), in a world reached by calls that return normally, \<open>top\<close> on a
  nonempty queue returns an element \<open>e\<close>, the value at the root of the queue's tree, and
  the predicate applied to \<open>e\<close> and any element of the two subtrees, that is any other
  element of the queue, is false.
\<close>

theorem top_not_before_others:
  assumes "reachable cmp w" "asymmetric cmp" "negatively_transitive cmp" "\<not> empty_pq w i"
  shows "\<exists>e l a r. top_pq w i = Inr e \<and> queue_ok w i (Node l a e r)
           \<and> (\<forall>x \<in># vals l + vals r. cmp e x = Some False)"
proof -
  from reachable_order [OF assms(2,1)]
  obtain T where T: "world_inv w T" "\<And>i. children_ok (not_before cmp) (T i)"
    by blast
  have ok: "queue_ok w i (T i)" using T(1) by (rule world_invD(6))
  from ok assms(4) obtain l a e r where t: "T i = Node l a e r"
    by (cases "T i") (auto simp: queue_ok_def empty_pq_def)
  have top: "top_pq w i = Inr e"
    using top_pq_tree [OF ok] t by simp
  have ch: "children_ok (not_before cmp) (Node l a e r)" using T(2) [of i] t by simp
  have "cmp e x = Some False" if "x \<in># vals l + vals r" for x
  proof -
    from that consider "x \<in># vals l" | "x \<in># vals r" by auto
    then show ?thesis
    proof cases
      case 1
      show ?thesis
        by (rule below_root [OF assms(3) _ _ 1])
           (use ch in \<open>auto simp: not_before_def split: option.splits\<close>)
    next
      case 2
      show ?thesis
        by (rule below_root [OF assms(3) _ _ 2])
           (use ch in \<open>auto simp: not_before_def split: option.splits\<close>)
    qed
  qed
  with ok t top show ?thesis by auto
qed

theorem top_not_before_others_witness:
  "reachable throwing_less w_three \<and> asymmetric throwing_less
   \<and> negatively_transitive throwing_less \<and> \<not> empty_pq w_three 0
   \<and> top_pq w_three 0 = Inr 10 \<and> queue_ok w_three 0 t_three
   \<and> throwing_less 10 3 = Some False \<and> throwing_less 10 4 = Some False"
proof -
  have ne: "\<not> empty_pq w_three 0"
    by (simp add: eval_simps w_three_def)
  from top_not_before_others [OF w_three_reachable asymmetric_throwing_less
      negatively_transitive_throwing_less ne]
  obtain e l a r where t: "top_pq w_three 0 = Inr e" "queue_ok w_three 0 (Node l a e r)"
    "\<forall>x \<in># vals l + vals r. throwing_less e x = Some False"
    by blast
  from queue_ok_unique [OF t(2) w_three_tree]
  have "e = 10" "l = Node Leaf 2 3 Leaf" "r = Node Leaf 1 4 Leaf"
    by (simp_all add: t_three_def)
  with t(1,3) have "top_pq w_three 0 = Inr 10" "throwing_less 10 3 = Some False"
    "throwing_less 10 4 = Some False"
    by simp_all
  with ne w_three_reachable asymmetric_throwing_less negatively_transitive_throwing_less
    w_three_tree show ?thesis by simp
qed

section \<open>Merging two queues\<close>

text \<open>
  C4. Let \<open>i\<close> and \<open>j\<close> be two different queues, well formed with the trees \<open>ta\<close> and
  \<open>tb\<close> that share no node. When \<open>merge\<close> of queue \<open>j\<close> into queue \<open>i\<close> returns normally,
  queue \<open>j\<close> is empty with size 0, the size of queue \<open>i\<close> is the sum of the two sizes, and
  queue \<open>i\<close> is well formed with a tree whose elements are those of \<open>ta\<close> and \<open>tb\<close>
  together.
\<close>

theorem merge_drains_source:
  assumes a: "queue_ok w i ta" and b: "queue_ok w j tb"
    and disj: "set (addrs ta) \<inter> set (addrs tb) = {}" and ne: "i \<noteq> j"
    and run: "merge cmp w i j = Some (w', Inr ())"
  shows "empty_pq w' j \<and> size_pq w' j = 0 \<and> queue_ok w' j Leaf
         \<and> size_pq w' i = size_pq w i + size_pq w j
         \<and> (\<exists>t. queue_ok w' i t \<and> vals t = vals ta + vals tb)"
proof -
  let ?h = "nodes w"
  from run ne obtain x y h1 m where roots: "pq_root (queues w i) = Some x"
      "pq_root (queues w j) = Some y"
    and mn: "merge_node cmp ?h (Some x) (Some y) = Some (h1, Inr m)"
    and w': "w' = w\<lparr>nodes := h1,
         queues := (queues w)
           (i := \<lparr>pq_root = m, pq_size = pq_size (queues w i) + pq_size (queues w j)\<rparr>,
            j := \<lparr>pq_root = None, pq_size = 0\<rparr>)\<rparr>"
    by (auto simp: merge_def split: option.splits if_splits Option.bind_splits sum.splits)
  have repa: "rep ?h ta (Some x)" and repb: "rep ?h tb (Some y)"
    using a b roots by (simp_all add: queue_ok_def)
  have d: "distinct (addrs ta @ addrs tb)"
    using a b disj by (simp add: queue_ok_def)
  from merge_node_refines [OF repa repb d, of cmp] mn
  obtain t where t: "tmerge cmp ta tb = Some t" "rep h1 t m"
    unfolding merge_post_def by (auto split: option.splits)
  have "queue_ok w' i t"
    unfolding queue_ok_def w'
    using t(2) distinct_tmerge [OF t(1) d] length_addrs_tmerge [OF t(1)] ne a b
    by (simp add: queue_ok_def)
  moreover have "vals t = vals ta + vals tb"
    using t(1) by (rule vals_tmerge)
  ultimately show ?thesis
    using ne by (auto simp: w' empty_pq_def size_pq_def queue_ok_def)
qed

theorem merge_drains_source_witness:
  "queue_ok w_scenario 1 t_second \<and> queue_ok w_scenario 0 t_first
   \<and> merge less_int w_scenario 1 0 = Some (w_scenario_merged, Inr ())
   \<and> empty_pq w_scenario_merged 0 \<and> size_pq w_scenario_merged 0 = 0
   \<and> size_pq w_scenario_merged 1 = 5 \<and> top_pq w_scenario_merged 1 = Inr 20
   \<and> (\<exists>t. queue_ok w_scenario_merged 1 t \<and> vals t = {#20, 10, 5, 1, 3#})
   \<and> pop less_int w_scenario_merged 0 = Some (w_scenario_merged, Inl container_is_empty)"
proof -
  have a: "queue_ok w_scenario 1 t_second" and b: "queue_ok w_scenario 0 t_first"
    by (simp_all add: queue_ok_def w_scenario_def t_first_def t_second_def node_at_def)
  have disj: "set (addrs t_second) \<inter> set (addrs t_first) = {}"
    by (simp add: t_first_def t_second_def)
  have run: "merge less_int w_scenario 1 0 = Some (w_scenario_merged, Inr ())"
    by (simp add: eval_simps merge_node.simps w_scenario_def w_scenario_merged_def)
  have sizes: "size_pq w_scenario 1 = 2" "size_pq w_scenario 0 = 3"
    by (simp_all add: size_pq_def w_scenario_def)
  have rest: "top_pq w_scenario_merged 1 = Inr 20"
    "pop less_int w_scenario_merged 0 = Some (w_scenario_merged, Inl container_is_empty)"
    by (simp_all add: eval_simps w_scenario_merged_def)
  have v: "vals t_second + vals t_first = {#20, 10, 5, 1, 3#}"
    by (simp add: t_first_def t_second_def)
  from merge_drains_source [OF a b disj _ run] a b run sizes rest v
  show ?thesis by simp
qed

section \<open>Copies\<close>

text \<open>
  C9. In a well-formed world, assigning a queue to itself changes nothing, and both the
  assignment of queue \<open>j\<close> to another queue \<open>i\<close> and the copy construction of \<open>i\<close> from
  \<open>j\<close> return normally and leave queue \<open>i\<close> a copy of queue \<open>j\<close> in the sense of
  \<open>copied\<close>: same elements, same size, no node shared, and calls on one of them leave
  the other as it is.
\<close>

theorem copy_is_independent:
  assumes "world_inv w T" "i \<noteq> j"
  shows "assign w i i = Some (w, Inr ())
         \<and> (\<exists>w'. assign w i j = Some (w', Inr ()) \<and> copied cmp w T i j w')
         \<and> (\<exists>w'. copy_construct w i j = Some (w', Inr ()) \<and> copied cmp w T i j w')"
proof -
  have "assign w i i = Some (w, Inr ())" by (simp add: assign_def)
  moreover have "\<exists>w'. assign w i j = Some (w', Inr ()) \<and> copied cmp w T i j w'"
    using copied_after [OF assms, of "Assign i j" cmp cmp] by simp
  moreover have "\<exists>w'. copy_construct w i j = Some (w', Inr ()) \<and> copied cmp w T i j w'"
    using copied_after [OF assms, of "Copy i j" cmp cmp] by simp
  ultimately show ?thesis by simp
qed

theorem copy_is_independent_witness:
  "world_inv w_three T_three
   \<and> assign w_three 1 1 = Some (w_three, Inr ())
   \<and> assign w_three 1 0 = Some (w_copy, Inr ())
   \<and> copy_construct w_three 1 0 = Some (w_copy, Inr ())
   \<and> size_pq w_copy 1 = 3 \<and> size_pq w_copy 0 = 3
   \<and> run throwing_less w_copy [Pop 1] = Some (w_copy_popped, Inr ())
   \<and> queues w_copy_popped 0 = queues w_copy 0
   \<and> queue_ok w_copy_popped 0 t_three
   \<and> top_pq w_copy_popped 0 = Inr 10"
proof -
  have ne: "(1::nat) \<noteq> 0" by simp
  have a: "assign w_three 1 0 = Some (w_copy, Inr ())"
    by (simp add: assign_def clear.simps clonenode.simps eval_simps w_three_def w_copy_def)
  have c: "copy_construct w_three 1 0 = Some (w_copy, Inr ())"
    by (simp add: copy_construct_def clonenode.simps eval_simps w_three_def w_copy_def)
  have p: "run throwing_less w_copy [Pop 1] = Some (w_copy_popped, Inr ())"
    by (simp add: eval_simps merge_node.simps w_copy_def w_copy_popped_def)
  have k: "\<forall>c \<in> set [Pop 1 :: int call]. 0 \<notin> set (touches c)" by simp
  have ok: "defined_outcome (Inr ())" by (simp add: defined_outcome_def)
  have sizes: "size_pq w_copy 1 = 3" "size_pq w_copy 0 = 3" "top_pq w_copy 0 = Inr 10"
    by (simp_all add: eval_simps w_copy_def)
  from copy_is_independent [OF w_three_inv ne, of throwing_less] a
  have "copied throwing_less w_three T_three 1 0 w_copy" by simp
  then obtain t where
    frame: "\<And>cs w'' r k. run throwing_less w_copy cs = Some (w'', r) \<Longrightarrow> defined_outcome r
              \<Longrightarrow> \<forall>c \<in> set cs. k \<notin> set (touches c) \<Longrightarrow>
              queues w'' k = queues w_copy k \<and> queue_ok w'' k ((T_three(1 := t)) k)
              \<and> top_pq w'' k = top_pq w_copy k"
    unfolding copied_def by blast
  from frame [OF p ok k] have "queues w_copy_popped 0 = queues w_copy 0
      \<and> queue_ok w_copy_popped 0 ((T_three(1 := t)) 0)
      \<and> top_pq w_copy_popped 0 = top_pq w_copy 0" .
  then have "queues w_copy_popped 0 = queues w_copy 0" "queue_ok w_copy_popped 0 t_three"
    "top_pq w_copy_popped 0 = Inr 10"
    using sizes(3) by (simp_all add: T_three_def)
  with copy_is_independent [OF w_three_inv ne, of throwing_less] w_three_inv a c p sizes
  show ?thesis by simp
qed

section \<open>Iterator arithmetic\<close>

text \<open>
  C10. The claim is that \<open>(it + n) - n\<close> is \<open>it\<close> again. In the source \<open>operator-(const int&)\<close>
  adds \<open>n\<close>, as \<open>operator+\<close> does: on the vector \<open>[10, 20, 30]\<close> the iterator
  \<open>(begin() + 1) - 1\<close> has index 2 and not 0, it differs from \<open>begin()\<close>, and it reads the
  element 30 where \<open>begin()\<close> reads 10. The member \<open>operator-=\<close> subtracts and does return
  to \<open>begin()\<close>. The class \<open>const_iterator\<close> has the same \<open>operator-\<close>.
\<close>

theorem iterator_minus_adds:
  "iterator_minus (iterator_plus (begin_it v0) 1) 1 = \<lparr>it_ptr = 0, it_idx = 2\<rparr>
   \<and> iterator_minus (iterator_plus (begin_it v0) 1) 1 \<noteq> begin_it v0
   \<and> deref v0 (iterator_minus (iterator_plus (begin_it v0) 1) 1) = Some 30
   \<and> deref v0 (begin_it v0) = Some 10
   \<and> iterator_minus_assign (iterator_plus (begin_it v0) 1) 1 = begin_it v0
   \<and> const_iterator_minus (const_iterator_plus \<lparr>cit_ptr = 0, cit_idx = 0\<rparr> 1) 1
       = \<lparr>cit_ptr = 0, cit_idx = 2\<rparr>"
  by (simp add: iterator_minus_def iterator_plus_def iterator_minus_assign_def begin_it_def
      deref_def v0_def const_iterator_minus_def const_iterator_plus_def)

section \<open>Further properties of the calls that return normally\<close>

text \<open>
  In a world reached by calls that all return normally, the count of every queue is the
  number of allocated nodes its root leads to, and the root is null exactly when the count
  is 0. (After a call that raised this can fail, see C8.)
\<close>

theorem size_counts_nodes_reachable:
  assumes "reachable cmp w"
  shows "live_nodes w i = size_pq w i \<and> (pq_root (queues w i) = None \<longleftrightarrow> size_pq w i = 0)"
proof -
  from reachable_inv [OF assms] obtain T where "world_inv w T" by blast
  then have ok: "queue_ok w i (T i)" by (rule world_invD(6))
  have "pq_root (queues w i) = None \<longleftrightarrow> pq_size (queues w i) = 0"
    using ok by (cases "T i") (auto simp: queue_ok_def)
  with live_nodes_queue_ok [OF ok] show ?thesis by (simp add: size_pq_def)
qed

theorem size_counts_nodes_reachable_witness:
  "reachable less_int w_scenario \<and> live_nodes w_scenario 0 = 3 \<and> size_pq w_scenario 0 = 3
   \<and> live_nodes w_scenario 1 = 2 \<and> size_pq w_scenario 1 = 2
   \<and> live_nodes w_scenario 2 = 0 \<and> pq_root (queues w_scenario 2) = None"
proof -
  have s: "size_pq w_scenario 0 = 3" "size_pq w_scenario 1 = 2" "size_pq w_scenario 2 = 0"
    by (simp_all add: size_pq_def w_scenario_def empty_queue_def)
  from size_counts_nodes_reachable [OF w_scenario_reachable, of 0]
    size_counts_nodes_reachable [OF w_scenario_reachable, of 1]
    size_counts_nodes_reachable [OF w_scenario_reachable, of 2] s w_scenario_reachable
  show ?thesis by simp
qed

text \<open>
  In such a world every call returns: the recursions of \<open>merge\<close>, \<open>clear\<close> and
  \<open>clonenode\<close> end. No call uses a deleted node, and the only call that dereferences a
  null pointer is \<open>merge\<close> of two different queues one of which is empty.
\<close>

theorem calls_return:
  assumes "reachable cmp w"
  shows "\<exists>w' r. step cmp w c = Some (w', r) \<and> r \<noteq> Inl dangling_pointer
           \<and> (r = Inl null_dereference \<longrightarrow>
                (\<exists>i j. c = Merge i j \<and> i \<noteq> j \<and> (empty_pq w i \<or> empty_pq w j)))"
proof -
  from reachable_inv [OF assms] obtain T where inv: "world_inv w T" by blast
  from step_post [OF inv, of cmp c]
  obtain w' r where out: "step cmp w c = Some (w', r)"
    and r: "case tstep cmp (length (nodes w)) T c of
           Some T' \<Rightarrow> r = Inr () \<and> world_inv w' T'
         | None \<Rightarrow> queues w' = queues w \<and>
             (r = Inl compare_exception \<or> r = Inl null_dereference \<or> r = Inl container_is_empty)"
    unfolding call_post_def by blast
  have 1: "r \<noteq> Inl dangling_pointer"
    using r by (auto split: option.splits)
  have 2: "\<exists>i j. c = Merge i j \<and> i \<noteq> j \<and> (empty_pq w i \<or> empty_pq w j)"
    if n: "r = Inl null_dereference"
  proof (cases c)
    case (Push i e)
    with out n show ?thesis
      by (auto simp: push_def new_node_def split: Option.bind_splits sum.splits prod.splits
          dest: merge_node_error)
  next
    case (Pop i)
    have "pq_size (queues w i) \<noteq> 0 \<Longrightarrow> pq_root (queues w i) \<noteq> None"
      using world_invD(6) [OF inv, of i] by (cases "T i") (auto simp: queue_ok_def)
    with Pop out n show ?thesis
      by (auto simp: pop_def split: option.splits Option.bind_splits sum.splits if_splits
          dest: merge_node_error)
  next
    case (Merge i j)
    have e: "empty_pq w q \<longleftrightarrow> pq_root (queues w q) = None" for q
      using world_invD(6) [OF inv, of q] by (cases "T q") (auto simp: queue_ok_def empty_pq_def)
    from Merge out n show ?thesis
      by (auto simp: merge_def e split: option.splits Option.bind_splits sum.splits if_splits
          dest: merge_node_error)
  next
    case (Assign i j)
    with r n show ?thesis by simp
  next
    case (Copy i j)
    with r n show ?thesis by simp
  qed
  from out 1 2 show ?thesis by blast
qed

theorem calls_return_witness:
  "reachable throwing_less w_three \<and> empty_pq w_three 1
   \<and> step throwing_less w_three (Merge 0 1) = Some (w_three, Inl null_dereference)
   \<and> step throwing_less w_three (Push 0 7) = Some (w_three_failed, Inl compare_exception)"
proof -
  have e: "empty_pq w_three 1"
    by (simp add: eval_simps w_three_def)
  have m: "step throwing_less w_three (Merge 0 1) = Some (w_three, Inl null_dereference)"
    by (simp add: eval_simps w_three_def)
  have p: "step throwing_less w_three (Push 0 7) = Some (w_three_failed, Inl compare_exception)"
    by (simp add: eval_simps merge_node.simps w_three_def w_three_failed_def)
  from calls_return [OF w_three_reachable, of "Merge 0 1"] m
  have "\<exists>i j. Merge 0 1 = (Merge i j :: int call) \<and> i \<noteq> j \<and> (empty_pq w_three i \<or> empty_pq w_three j)"
    by simp
  with w_three_reachable e m p show ?thesis by simp
qed

end
